theory Spec2Isabelle
  imports Complex_Main
begin

section \<open>The outline model of outliner.py\<close>

text \<open>
  The Python program keeps a tree of \<open>OutlineItem\<close> objects. The same object is
  referenced from its parent's \<open>children\<close> list and from the dictionary \<open>all_items\<close>,
  and two distinct objects may carry the same \<open>url\<close>. Objects are therefore kept in
  an explicit store: an address is an index into \<open>heap\<close>, objects are never freed, and
  a fresh object gets the address \<open>length heap\<close>. Python compares items by identity
  (the class defines no \<open>__eq__\<close>), which is equality of addresses here.

  \<open>time.time()\<close> is an input of the program: the \<open>i\<close>-th call made since start-up
  returns \<open>ticks i\<close>, and the model counts the calls in the field \<open>clock\<close>. The
  readings are floats in Python; they are only compared, and once decreased by 3600, so
  they are real numbers here. Nothing is assumed of \<open>ticks\<close> unless a theorem says so.

  Strings are lists of bytes. The program concatenates them, compares them and splits
  them at the slash, which acts on the bytes of UTF-8 as it does on code points.
\<close>

type_synonym addr = nat
type_synonym time = real

text \<open>The field \<open>text\<close> of the class is \<open>item_text\<close> here.\<close>

record OutlineItem =
  url :: string
  item_text :: string
  children :: "addr list"
  last_modified :: time

text \<open>
  \<open>updated_items\<close> is a Python set of strings. It is kept as the list of its elements;
  \<open>add\<close> is \<open>List.insert\<close> and \<open>discard\<close> is \<open>removeAll\<close>. The position of an element
  in the list stands for the (unspecified) iteration order of the set.
\<close>

record OutlineModel =
  heap :: "OutlineItem list"
  clock :: nat
  root :: addr
  item_count :: nat
  all_items :: "string \<rightharpoonup> addr"
  updated_items :: "string list"

datatype error = KeyError

definition root_url :: string where
  "root_url = ''/outline/''"

subsection \<open>Python's string operations\<close>

text \<open>\<open>str(n)\<close> for a non-negative integer: its decimal digits.\<close>

definition digit_char :: "nat \<Rightarrow> char" where
  "digit_char d = ''0123456789'' ! d"

fun str_nat :: "nat \<Rightarrow> string" where
  "str_nat n = (if n < 10 then [digit_char n]
                else str_nat (n div 10) @ [digit_char (n mod 10)])"

declare str_nat.simps [simp del]

text \<open>\<open>s.split(c)\<close> with an explicit separator: one piece more than separators.\<close>

fun split :: "char \<Rightarrow> string \<Rightarrow> string list" where
  "split c [] = [[]]"
| "split c (x # xs) =
     (if x = c then [] # split c xs
      else (case split c xs of
              [] \<Rightarrow> [[x]]
            | w # ws \<Rightarrow> (x # w) # ws))"

text \<open>\<open>sep.join(ws)\<close>.\<close>

fun join :: "string \<Rightarrow> string list \<Rightarrow> string" where
  "join sep [] = []"
| "join sep [w] = w"
| "join sep (w # ws) = w @ sep @ join sep ws"

text \<open>
  \<open>"/".join(path.split("/")[:-2]) + "/"\<close>: the slice \<open>[:-2]\<close> drops the last two
  pieces and is empty when there are at most two.
\<close>

definition parent_path_of :: "string \<Rightarrow> string" where
  "parent_path_of path =
     (let pieces = split CHR ''/'' path
      in join ''/'' (take (length pieces - 2) pieces) @ ''/'')"

subsection \<open>OutlineItem\<close>

definition time_time :: "(nat \<Rightarrow> time) \<Rightarrow> OutlineModel \<Rightarrow> time \<times> OutlineModel" where
  "time_time ticks st = (ticks (clock st), st\<lparr>clock := Suc (clock st)\<rparr>)"

definition item_at :: "OutlineModel \<Rightarrow> addr \<Rightarrow> OutlineItem" where
  "item_at st a = heap st ! a"

definition set_item :: "addr \<Rightarrow> OutlineItem \<Rightarrow> OutlineModel \<Rightarrow> OutlineModel" where
  "set_item a it st = st\<lparr>heap := (heap st)[a := it]\<rparr>"

text \<open>\<open>OutlineItem.__init__\<close>: allocates the object and stamps it.\<close>

definition new_OutlineItem ::
  "(nat \<Rightarrow> time) \<Rightarrow> string \<Rightarrow> string \<Rightarrow> OutlineModel \<Rightarrow> addr \<times> OutlineModel" where
  "new_OutlineItem ticks u t st =
     (let (now, st1) = time_time ticks st
      in (length (heap st1),
          st1\<lparr>heap := heap st1 @
                 [\<lparr>url = u, item_text = t, children = [], last_modified = now\<rparr>]\<rparr>))"

text \<open>\<open>OutlineItem.to_dict\<close>: the children are serialised as their urls.\<close>

definition to_dict :: "OutlineModel \<Rightarrow> addr \<Rightarrow> string \<times> string \<times> string list" where
  "to_dict st a =
     (url (item_at st a), item_text (item_at st a),
      map (\<lambda>c. url (item_at st c)) (children (item_at st a)))"

definition add_child :: "(nat \<Rightarrow> time) \<Rightarrow> addr \<Rightarrow> addr \<Rightarrow> OutlineModel \<Rightarrow> OutlineModel" where
  "add_child ticks p c st =
     (let st1 = set_item p ((item_at st p)\<lparr>children := children (item_at st p) @ [c]\<rparr>) st;
          (now, st2) = time_time ticks st1
      in set_item p ((item_at st2 p)\<lparr>last_modified := now\<rparr>) st2)"

text \<open>\<open>list.remove\<close> drops the first occurrence, which is \<open>remove1\<close>.\<close>

definition remove_child ::
  "(nat \<Rightarrow> time) \<Rightarrow> addr \<Rightarrow> addr \<Rightarrow> OutlineModel \<Rightarrow> bool \<times> OutlineModel" where
  "remove_child ticks p c st =
     (if c \<in> set (children (item_at st p)) then
        (let st1 = set_item p ((item_at st p)\<lparr>children := remove1 c (children (item_at st p))\<rparr>) st;
             (now, st2) = time_time ticks st1
         in (True, set_item p ((item_at st2 p)\<lparr>last_modified := now\<rparr>) st2))
      else (False, st))"

subsection \<open>OutlineModel\<close>

definition init_model :: "(nat \<Rightarrow> time) \<Rightarrow> OutlineModel" where
  "init_model ticks =
     \<lparr>heap = [\<lparr>url = root_url, item_text = ''My Outline'', children = [],
               last_modified = ticks 0\<rparr>],
      clock = 1, root = 0, item_count = 0,
      all_items = [root_url \<mapsto> 0], updated_items = []\<rparr>"

definition get_item :: "OutlineModel \<Rightarrow> string \<Rightarrow> addr option" where
  "get_item st path = all_items st path"

definition mark_updated :: "string \<Rightarrow> OutlineModel \<Rightarrow> OutlineModel" where
  "mark_updated k st = st\<lparr>updated_items := List.insert k (updated_items st)\<rparr>"

definition create_item ::
  "(nat \<Rightarrow> time) \<Rightarrow> string \<Rightarrow> string \<Rightarrow> OutlineModel \<Rightarrow> addr option \<times> OutlineModel" where
  "create_item ticks parent_path t st =
     (case get_item st parent_path of
        None \<Rightarrow> (None, st)
      | Some parent \<Rightarrow>
          (let new_url = parent_path @ str_nat (length (children (item_at st parent))) @ ''/'';
               st1 = st\<lparr>item_count := item_count st + 1\<rparr>;
               (new, st2) = new_OutlineItem ticks new_url t st1;
               st3 = add_child ticks parent new st2;
               st4 = st3\<lparr>all_items := (all_items st3)(new_url \<mapsto> new)\<rparr>;
               st5 = mark_updated new_url st4;
               st6 = mark_updated parent_path st5
           in (Some new, st6)))"

definition update_item ::
  "(nat \<Rightarrow> time) \<Rightarrow> string \<Rightarrow> string \<Rightarrow> OutlineModel \<Rightarrow> addr option \<times> OutlineModel" where
  "update_item ticks path t st =
     (case get_item st path of
        None \<Rightarrow> (None, st)
      | Some item \<Rightarrow>
          (let st1 = set_item item ((item_at st item)\<lparr>item_text := t\<rparr>) st;
               (now, st2) = time_time ticks st1;
               st3 = set_item item ((item_at st2 item)\<lparr>last_modified := now\<rparr>) st2;
               st4 = mark_updated path st3
           in (Some item, st4)))"

text \<open>
  A \<open>for\<close> loop whose body may raise or fail to return: the loop stops at the first
  iteration that does not return normally.
\<close>

fun for_each ::
  "('a \<Rightarrow> 's \<Rightarrow> (error + 's) option) \<Rightarrow> 'a list \<Rightarrow> 's \<Rightarrow> (error + 's) option" where
  "for_each body [] st = Some (Inr st)"
| "for_each body (x # xs) st =
     (case body x st of
        None \<Rightarrow> None
      | Some (Inl e) \<Rightarrow> Some (Inl e)
      | Some (Inr st') \<Rightarrow> for_each body xs st')"

text \<open>
  \<open>delete_item\<close> calls itself on the url of every child. The first argument after
  \<open>ticks\<close> bounds the depth of the recursion: \<open>None\<close> means that the bound was too
  small for the call to return (the interpreter's own limit on the depth of recursion is
  not modelled otherwise). \<open>Inl KeyError\<close> is the exception of
  \<open>del self.all_items[path]\<close> on a missing key; the store it leaves behind is not kept,
  since no reachable state raises it (\<open>delete_item_deleted\<close> below). The loop runs over
  a copy of the child list and reads \<open>child.url\<close> when it reaches the child; the
  result of the inner call is dropped.
\<close>

fun delete_item ::
  "(nat \<Rightarrow> time) \<Rightarrow> nat \<Rightarrow> string \<Rightarrow> OutlineModel \<Rightarrow> (error + bool \<times> OutlineModel) option" where
  "delete_item ticks 0 path st = None"
| "delete_item ticks (Suc d) path st =
     (if path = ''/outline/'' then Some (Inr (False, st))
      else
        (case get_item st path of
           None \<Rightarrow> Some (Inr (False, st))
         | Some item \<Rightarrow>
             (case for_each
                     (\<lambda>child s. map_option (map_sum id snd)
                                  (delete_item ticks d (url (item_at s child)) s))
                     (children (item_at st item)) st of
                None \<Rightarrow> None
              | Some (Inl e) \<Rightarrow> Some (Inl e)
              | Some (Inr st1) \<Rightarrow>
                  (let parent_path = parent_path_of path;
                       st2 = (case get_item st1 parent_path of
                                None \<Rightarrow> st1
                              | Some parent \<Rightarrow> snd (remove_child ticks parent item st1))
                   in if all_items st2 path = None then Some (Inl KeyError)
                      else Some (Inr (True,
                             mark_updated parent_path
                               (st2\<lparr>all_items := (all_items st2)(path := None)\<rparr>)))))))"

declare delete_item.simps [simp del]

definition cleanup_old_updates :: "time \<Rightarrow> OutlineModel \<Rightarrow> OutlineModel" where
  "cleanup_old_updates cutoff_time st =
     (let to_remove =
            filter (\<lambda>u. case get_item st u of
                          None \<Rightarrow> False
                        | Some item \<Rightarrow> last_modified (item_at st item) < cutoff_time)
                   (updated_items st)
      in st\<lparr>updated_items := fold removeAll to_remove (updated_items st)\<rparr>)"

definition get_updated_items ::
  "(nat \<Rightarrow> time) \<Rightarrow> time \<Rightarrow> OutlineModel \<Rightarrow> string list \<times> OutlineModel" where
  "get_updated_items ticks since st =
     (let (current_time, st1) = time_time ticks st;
          updated =
            filter (\<lambda>u. case get_item st1 u of
                          None \<Rightarrow> False
                        | Some item \<Rightarrow> last_modified (item_at st1 item) > since)
                   (updated_items st1)
      in (updated, cleanup_old_updates (current_time - 3600) st1))"

definition clear_updated_items :: "OutlineModel \<Rightarrow> OutlineModel" where
  "clear_updated_items st = st\<lparr>updated_items := []\<rparr>"


subsection \<open>Store states of the program\<close>

text \<open>
  What every store state of the program satisfies, whatever was created and deleted: the
  root is registered under its url, every registered url is the url of the item it
  refers to, no reference dangles, every url ends with a slash, and the url of a child
  is the url of its parent followed by a number and a slash.
\<close>

definition valid_store :: "OutlineModel \<Rightarrow> bool" where
  "valid_store st \<longleftrightarrow>
     root st < length (heap st) \<and>
     all_items st ''/outline/'' = Some (root st) \<and>
     finite (dom (all_items st)) \<and>
     (\<forall>k a. all_items st k = Some a \<longrightarrow> a < length (heap st) \<and> url (heap st ! a) = k) \<and>
     (\<forall>a < length (heap st).
        url (heap st ! a) \<noteq> [] \<and> last (url (heap st ! a)) = CHR ''/'' \<and>
        (\<forall>c \<in> set (children (heap st ! a)).
           c < length (heap st) \<and>
           (\<exists>n. url (heap st ! c) = url (heap st ! a) @ str_nat n @ ''/'')))"

text \<open>Every \<open>last_modified\<close> is a reading of the clock that was taken already.\<close>

definition stamped :: "(nat \<Rightarrow> time) \<Rightarrow> OutlineModel \<Rightarrow> bool" where
  "stamped ticks st \<longleftrightarrow>
     (\<forall>a < length (heap st). \<exists>i < clock st. last_modified (heap st ! a) = ticks i)"

text \<open>
  The states the program can be in: the initial one and those that a call of one of the
  five operations returns. A \<open>delete_item\<close> that returns does so at some depth.
\<close>

inductive reachable :: "(nat \<Rightarrow> time) \<Rightarrow> OutlineModel \<Rightarrow> bool" for ticks where
  init: "reachable ticks (init_model ticks)"
| create: "reachable ticks st \<Longrightarrow> create_item ticks p t st = (r, st') \<Longrightarrow> reachable ticks st'"
| update: "reachable ticks st \<Longrightarrow> update_item ticks k t st = (r, st') \<Longrightarrow> reachable ticks st'"
| delete: "reachable ticks st \<Longrightarrow> delete_item ticks d k st = Some (Inr (b, st'))
             \<Longrightarrow> reachable ticks st'"
| poll: "reachable ticks st \<Longrightarrow> get_updated_items ticks since st = (ks, st')
             \<Longrightarrow> reachable ticks st'"
| clear: "reachable ticks st \<Longrightarrow> reachable ticks (clear_updated_items st)"

text \<open>The same without \<open>delete_item\<close>.\<close>

inductive reachable_without_delete :: "(nat \<Rightarrow> time) \<Rightarrow> OutlineModel \<Rightarrow> bool" for ticks where
  init: "reachable_without_delete ticks (init_model ticks)"
| create: "reachable_without_delete ticks st \<Longrightarrow> create_item ticks p t st = (r, st')
             \<Longrightarrow> reachable_without_delete ticks st'"
| update: "reachable_without_delete ticks st \<Longrightarrow> update_item ticks k t st = (r, st')
             \<Longrightarrow> reachable_without_delete ticks st'"
| poll: "reachable_without_delete ticks st \<Longrightarrow> get_updated_items ticks since st = (ks, st')
             \<Longrightarrow> reachable_without_delete ticks st'"
| clear: "reachable_without_delete ticks st \<Longrightarrow> reachable_without_delete ticks (clear_updated_items st)"

subsection \<open>Requests and sample runs\<close>

text \<open>
  The requests of the transport layer, and the store after a list of them. A
  \<open>Delete\<close> that did not return normally ends the run with \<open>None\<close>.
\<close>

datatype request =
    Create string string
  | Update string string
  | Delete string
  | Poll time
  | Clear

fun perform :: "(nat \<Rightarrow> time) \<Rightarrow> nat \<Rightarrow> request \<Rightarrow> OutlineModel \<Rightarrow> OutlineModel option" where
  "perform ticks d (Create p t) st = Some (snd (create_item ticks p t st))"
| "perform ticks d (Update k t) st = Some (snd (update_item ticks k t st))"
| "perform ticks d (Delete k) st =
     (case delete_item ticks d k st of
        Some (Inr (b, st')) \<Rightarrow> Some st'
      | _ \<Rightarrow> None)"
| "perform ticks d (Poll since) st = Some (snd (get_updated_items ticks since st))"
| "perform ticks d Clear st = Some (clear_updated_items st)"

fun run :: "(nat \<Rightarrow> time) \<Rightarrow> nat \<Rightarrow> request list \<Rightarrow> OutlineModel \<Rightarrow> OutlineModel option" where
  "run ticks d [] st = Some st"
| "run ticks d (r # rs) st =
     (case perform ticks d r st of
        None \<Rightarrow> None
      | Some st' \<Rightarrow> run ticks d rs st')"

text \<open>A clock for the examples: one reading every 4000 seconds.\<close>

definition sample_clock :: "nat \<Rightarrow> time" where
  "sample_clock i = 4000 * real i"

text \<open>The items that the root reaches through \<open>children\<close>.\<close>

inductive in_tree :: "OutlineModel \<Rightarrow> addr \<Rightarrow> bool" for st where
  root: "in_tree st (root st)"
| child: "in_tree st a \<Longrightarrow> c \<in> set (children (item_at st a)) \<Longrightarrow> in_tree st c"

text \<open>
  Every registered url but the root's is the url of a child position: the url of a
  registered parent, the index of one of its children, and a slash.
\<close>

definition children_registered :: "OutlineModel \<Rightarrow> bool" where
  "children_registered st \<longleftrightarrow>
     (\<forall>k. all_items st k \<noteq> None \<and> k \<noteq> ''/outline/'' \<longrightarrow>
        (\<exists>p pa i. all_items st p = Some pa \<and> i < length (children (heap st ! pa)) \<and>
                  k = p @ str_nat i @ ''/''))"

subsection \<open>What a deletion may change\<close>

text \<open>
  How one item may differ after deletions that started when the clock stood at \<open>c\<close>
  and ended when it stood at \<open>c'\<close>: either it is as it was, or its url and text
  are the same, it has lost children, and its stamp is a reading taken in between.
\<close>

definition item_effect ::
  "(nat \<Rightarrow> time) \<Rightarrow> nat \<Rightarrow> nat \<Rightarrow> OutlineItem \<Rightarrow> OutlineItem \<Rightarrow> bool" where
  "item_effect ticks c c' it it' \<longleftrightarrow>
     it' = it \<or>
     (url it' = url it \<and> item_text it' = item_text it \<and>
      set (children it') \<subseteq> set (children it) \<and>
      (\<exists>i. c \<le> i \<and> i < c' \<and> last_modified it' = ticks i))"

text \<open>
  How the store may differ after deletions below urls of length \<open>n\<close>: nothing is
  allocated, every item changes as above, the items with a shorter url are untouched
  (but for the item \<open>ex\<close>, the parent), registered urls are only removed, and none
  of the shorter ones is.
\<close>

definition delete_effect ::
  "(nat \<Rightarrow> time) \<Rightarrow> nat \<Rightarrow> addr option \<Rightarrow> OutlineModel \<Rightarrow> OutlineModel \<Rightarrow> bool" where
  "delete_effect ticks n ex st st' \<longleftrightarrow>
     length (heap st') = length (heap st) \<and> root st' = root st \<and>
     item_count st' = item_count st \<and> clock st \<le> clock st' \<and>
     set (updated_items st) \<subseteq> set (updated_items st') \<and>
     (\<forall>a < length (heap st).
        item_effect ticks (clock st) (clock st') (heap st ! a) (heap st' ! a)) \<and>
     (\<forall>a < length (heap st).
        length (url (heap st ! a)) < n \<and> ex \<noteq> Some a \<longrightarrow> heap st' ! a = heap st ! a) \<and>
     (\<forall>k a. all_items st' k = Some a \<longrightarrow> all_items st k = Some a) \<and>
     (\<forall>k. length k < n \<longrightarrow> all_items st' k = all_items st k)"

text \<open>What a call of \<open>delete_item\<close> on \<open>k\<close> that returned \<open>b\<close> has done.\<close>

definition deleted ::
  "(nat \<Rightarrow> time) \<Rightarrow> string \<Rightarrow> OutlineModel \<Rightarrow> bool \<Rightarrow> OutlineModel \<Rightarrow> bool" where
  "deleted ticks k st b st' \<longleftrightarrow>
     valid_store st' \<and>
     delete_effect ticks (length k) (all_items st (parent_path_of k)) st st' \<and>
     (b \<longleftrightarrow> k \<noteq> ''/outline/'' \<and> all_items st k \<noteq> None) \<and>
     (\<not> b \<longrightarrow> st' = st) \<and>
     (b \<longrightarrow> all_items st' k = None \<and> parent_path_of k \<in> set (updated_items st') \<and>
        (\<forall>pa a. all_items st (parent_path_of k) = Some pa \<and> all_items st k = Some a \<and>
                a \<in> set (children (heap st ! pa)) \<longrightarrow>
           children (heap st' ! pa) = remove1 a (children (heap st ! pa)) \<and>
           (\<exists>i. clock st \<le> i \<and> i < clock st' \<and> last_modified (heap st' ! pa) = ticks i)))"

text \<open>The state after a successful \<open>create_item\<close> under the item \<open>pa\<close>, written out.\<close>

definition created :: "(nat \<Rightarrow> time) \<Rightarrow> string \<Rightarrow> string \<Rightarrow> addr \<Rightarrow> OutlineModel \<Rightarrow> OutlineModel" where
  "created ticks p t pa st =
     (let new_url = p @ str_nat (length (children (heap st ! pa))) @ ''/'' in
      st\<lparr>heap := (heap st)[pa := (heap st ! pa)\<lparr>children := children (heap st ! pa) @ [length (heap st)],
                                               last_modified := ticks (Suc (clock st))\<rparr>]
                   @ [\<lparr>url = new_url, item_text = t, children = [], last_modified = ticks (clock st)\<rparr>],
         clock := Suc (Suc (clock st)),
         item_count := Suc (item_count st),
         all_items := (all_items st)(new_url \<mapsto> length (heap st)),
         updated_items := List.insert p (List.insert new_url (updated_items st))\<rparr>)"


section \<open>Strings\<close>

lemma digit_char_cases:
  assumes "d < 10"
  shows "digit_char d \<in> set ''0123456789''"
proof -
  have "d < length ''0123456789''" using assms by simp
  then show ?thesis unfolding digit_char_def by (rule nth_mem)
qed

lemma str_nat_digits: "set (str_nat n) \<subseteq> set ''0123456789''"
proof (induction n rule: str_nat.induct)
  case (1 n)
  show ?case
  proof (cases "n < 10")
    case True
    then show ?thesis using digit_char_cases [of n] by (subst str_nat.simps) simp
  next
    case False
    have "digit_char (n mod 10) \<in> set ''0123456789''" by (rule digit_char_cases) simp
    with False 1 show ?thesis by (subst str_nat.simps) simp
  qed
qed

lemma str_nat_no_slash: "CHR ''/'' \<notin> set (str_nat n)"
  using str_nat_digits [of n] by auto

lemma str_nat_not_Nil: "str_nat n \<noteq> []"
  by (subst str_nat.simps) simp

lemma str_nat_last_not_e: "last (str_nat n) \<noteq> CHR ''e''"
proof -
  have "last (str_nat n) \<in> set (str_nat n)" using str_nat_not_Nil by (rule last_in_set)
  then show ?thesis using str_nat_digits [of n] by auto
qed

lemma digit_char_inj:
  assumes "a < 10" "b < 10" "digit_char a = digit_char b"
  shows "a = b"
proof -
  have "distinct ''0123456789''" by simp
  moreover have "a < length ''0123456789''" "b < length ''0123456789''"
    using assms(1,2) by simp_all
  ultimately show ?thesis
    using assms(3) unfolding digit_char_def by (simp only: nth_eq_iff_index_eq)
qed

lemma str_nat_length_ge2: "\<not> n < 10 \<Longrightarrow> 2 \<le> length (str_nat n)"
proof -
  assume n: "\<not> n < 10"
  have "str_nat (n div 10) \<noteq> []" by (rule str_nat_not_Nil)
  then have "1 \<le> length (str_nat (n div 10))" by (cases "str_nat (n div 10)") auto
  with n show ?thesis by (subst str_nat.simps) simp
qed

lemma str_nat_inj: "str_nat m = str_nat n \<Longrightarrow> m = n"
proof (induction m arbitrary: n rule: str_nat.induct)
  case (1 m)
  show ?case
  proof (cases "m < 10")
    case m: True
    show ?thesis
    proof (cases "n < 10")
      case True
      with m "1.prems" have "digit_char m = digit_char n"
        by (simp add: str_nat.simps [of m] str_nat.simps [of n])
      with m True show ?thesis by (rule digit_char_inj)
    next
      case False
      then have "2 \<le> length (str_nat n)" by (rule str_nat_length_ge2)
      moreover have "length (str_nat m) = 1" using m by (subst str_nat.simps) simp
      ultimately show ?thesis using "1.prems" by simp
    qed
  next
    case m: False
    show ?thesis
    proof (cases "n < 10")
      case True
      from m have "2 \<le> length (str_nat m)" by (rule str_nat_length_ge2)
      moreover have "length (str_nat n) = 1" using True by (subst str_nat.simps) simp
      ultimately show ?thesis using "1.prems" by simp
    next
      case False
      with m "1.prems"
      have eq: "str_nat (m div 10) = str_nat (n div 10)"
        and dg: "digit_char (m mod 10) = digit_char (n mod 10)"
        by (simp_all add: str_nat.simps [of m] str_nat.simps [of n])
      from "1.IH" [OF m eq] have "m div 10 = n div 10" .
      moreover have "m mod 10 = n mod 10"
        by (rule digit_char_inj [OF _ _ dg]) simp_all
      ultimately show ?thesis by (metis div_mult_mod_eq)
    qed
  qed
qed

lemma split_not_Nil: "split c xs \<noteq> []"
  by (induction xs) (auto split: list.splits)

lemma split_no_sep: "c \<notin> set xs \<Longrightarrow> split c xs = [xs]"
  by (induction xs) auto

lemma split_append_sep: "split c (xs @ c # ys) = split c xs @ split c ys"
proof (induction xs)
  case Nil
  then show ?case by simp
next
  case (Cons x xs)
  obtain w ws where w: "split c xs = w # ws"
    using split_not_Nil [of c xs] by (cases "split c xs") auto
  with Cons show ?case by auto
qed

lemma join_Cons_Cons: "join sep ((x # w) # ws) = x # join sep (w # ws)"
  by (cases ws) auto

lemma join_split: "join [c] (split c xs) = xs"
proof (induction xs)
  case Nil
  then show ?case by simp
next
  case (Cons x xs)
  obtain w ws where w: "split c xs = w # ws"
    using split_not_Nil [of c xs] by (cases "split c xs") auto
  show ?case
  proof (cases "x = c")
    case True
    with Cons w show ?thesis by simp
  next
    case False
    with Cons w show ?thesis by (simp add: join_Cons_Cons)
  qed
qed

lemma parent_path_of_child:
  assumes "p \<noteq> []" "last p = CHR ''/''" "CHR ''/'' \<notin> set s"
  shows "parent_path_of (p @ s @ ''/'') = p"
proof -
  obtain q where q: "p = q @ ''/''"
    using assms(1,2) by (metis append_butlast_last_id)
  have "split CHR ''/'' (p @ s @ ''/'') = split CHR ''/'' q @ [s, []]"
    using assms(3) by (simp add: q split_append_sep split_no_sep)
  then show ?thesis
    by (simp add: parent_path_of_def q join_split)
qed

lemma child_url_unique:
  assumes "p @ s @ ''/'' = p' @ s' @ ''/''"
    and "p \<noteq> []" "last p = CHR ''/''" "CHR ''/'' \<notin> set s"
    and "p' \<noteq> []" "last p' = CHR ''/''" "CHR ''/'' \<notin> set s'"
  shows "p = p' \<and> s = s'"
proof -
  have "p = parent_path_of (p @ s @ ''/'')" using assms(2-4) by (simp add: parent_path_of_child)
  also have "\<dots> = parent_path_of (p' @ s' @ ''/'')" using assms(1) by (rule arg_cong)
  also have "\<dots> = p'" using assms(5-7) by (simp add: parent_path_of_child)
  finally have "p = p'" .
  with assms(1) show ?thesis by simp
qed

lemma child_url_not_root:
  "p @ str_nat n @ ''/'' \<noteq> ''/outline/''"
proof
  assume "p @ str_nat n @ ''/'' = ''/outline/''"
  then have "(p @ str_nat n) @ ''/'' = ''/outline'' @ ''/''" by simp
  then have "p @ str_nat n = ''/outline''" by (simp only: append_same_eq)
  then have "last (p @ str_nat n) = CHR ''e''" by simp
  then show False using str_nat_last_not_e [of n] by (simp add: str_nat_not_Nil)
qed



section \<open>The operations, written out\<close>

lemma create_item_None:
  "get_item st p = None \<Longrightarrow> create_item ticks p t st = (None, st)"
  by (simp add: create_item_def)

lemma create_item_Some:
  assumes "get_item st p = Some pa" "pa < length (heap st)"
  shows "create_item ticks p t st = (Some (length (heap st)), created ticks p t pa st)"
  using assms
  by (simp add: create_item_def created_def new_OutlineItem_def time_time_def add_child_def
      set_item_def item_at_def mark_updated_def Let_def nth_append list_update_append)

lemma update_item_None:
  "get_item st p = None \<Longrightarrow> update_item ticks p t st = (None, st)"
  by (simp add: update_item_def)

lemma update_item_Some:
  assumes "get_item st p = Some a" "a < length (heap st)"
  shows "update_item ticks p t st =
     (Some a, st\<lparr>heap := (heap st)[a := (heap st ! a)\<lparr>item_text := t, last_modified := ticks (clock st)\<rparr>],
                 clock := Suc (clock st),
                 updated_items := List.insert p (updated_items st)\<rparr>)"
  using assms
  by (simp add: update_item_def time_time_def set_item_def item_at_def mark_updated_def Let_def)

lemma remove_child_in:
  assumes "c \<in> set (children (heap st ! p))" "p < length (heap st)"
  shows "remove_child ticks p c st =
     (True, st\<lparr>heap := (heap st)[p := (heap st ! p)\<lparr>children := remove1 c (children (heap st ! p)),
                                                  last_modified := ticks (clock st)\<rparr>],
               clock := Suc (clock st)\<rparr>)"
  using assms
  by (simp add: remove_child_def time_time_def set_item_def item_at_def Let_def)

lemma remove_child_out:
  "c \<notin> set (children (heap st ! p)) \<Longrightarrow> remove_child ticks p c st = (False, st)"
  by (simp add: remove_child_def item_at_def)

section \<open>Store states stay valid\<close>

lemma valid_store_init: "valid_store (init_model ticks)"
  by (simp add: valid_store_def init_model_def root_url_def)

lemma stamped_init: "stamped ticks (init_model ticks)"
  by (auto simp: stamped_def init_model_def)

lemma valid_store_item:
  "valid_store st \<Longrightarrow> all_items st k = Some a \<Longrightarrow> a < length (heap st) \<and> url (heap st ! a) = k"
  by (simp add: valid_store_def)

lemma valid_store_root:
  "valid_store st \<Longrightarrow> all_items st ''/outline/'' = Some (root st)"
  by (simp add: valid_store_def)

lemma valid_store_slash:
  "valid_store st \<Longrightarrow> a < length (heap st)
     \<Longrightarrow> url (heap st ! a) \<noteq> [] \<and> last (url (heap st ! a)) = CHR ''/''"
  by (simp add: valid_store_def)

lemma valid_store_child:
  "valid_store st \<Longrightarrow> a < length (heap st) \<Longrightarrow> c \<in> set (children (heap st ! a))
     \<Longrightarrow> c < length (heap st) \<and> (\<exists>n. url (heap st ! c) = url (heap st ! a) @ str_nat n @ ''/'')"
  by (simp add: valid_store_def)

lemma valid_store_finite: "valid_store st \<Longrightarrow> finite (dom (all_items st))"
  by (simp add: valid_store_def)

lemma valid_store_shrink:
  assumes v: "valid_store st"
    and len: "length (heap st') = length (heap st)"
    and items: "\<And>a. a < length (heap st) \<Longrightarrow>
        url (heap st' ! a) = url (heap st ! a) \<and>
        set (children (heap st' ! a)) \<subseteq> set (children (heap st ! a))"
    and keys: "\<And>k a. all_items st' k = Some a \<Longrightarrow> all_items st k = Some a"
    and rt: "all_items st' ''/outline/'' = all_items st ''/outline/''" "root st' = root st"
  shows "valid_store st'"
proof -
  have "dom (all_items st') \<subseteq> dom (all_items st)" using keys by auto
  then have fin: "finite (dom (all_items st'))"
    using valid_store_finite [OF v] by (rule finite_subset)
  have m: "a < length (heap st') \<and> url (heap st' ! a) = k" if "all_items st' k = Some a" for k a
  proof -
    from keys [OF that] have "all_items st k = Some a" .
    from valid_store_item [OF v this] have "a < length (heap st)" "url (heap st ! a) = k" by simp_all
    with items [of a] len show ?thesis by simp
  qed
  have c: "\<And>a c. a < length (heap st') \<Longrightarrow>
       url (heap st' ! a) \<noteq> [] \<and> last (url (heap st' ! a)) = CHR ''/'' \<and>
       (c \<in> set (children (heap st' ! a)) \<longrightarrow>
           c < length (heap st') \<and>
           (\<exists>n. url (heap st' ! c) = url (heap st' ! a) @ str_nat n @ ''/''))"
  proof -
    fix a c assume a: "a < length (heap st')"
    then have a': "a < length (heap st)" using len by simp
    have 1: "url (heap st' ! a) \<noteq> [] \<and> last (url (heap st' ! a)) = CHR ''/''"
      using valid_store_slash [OF v a'] items [OF a'] by simp
    have 2: "c < length (heap st') \<and>
           (\<exists>n. url (heap st' ! c) = url (heap st' ! a) @ str_nat n @ ''/'')"
      if "c \<in> set (children (heap st' ! a))"
    proof -
      from that items [OF a'] have cc: "c \<in> set (children (heap st ! a))" by auto
      from valid_store_child [OF v a' cc] items [OF a'] len
      show ?thesis using items [of c] by simp
    qed
    from 1 2 show "url (heap st' ! a) \<noteq> [] \<and> last (url (heap st' ! a)) = CHR ''/'' \<and>
       (c \<in> set (children (heap st' ! a)) \<longrightarrow>
           c < length (heap st') \<and>
           (\<exists>n. url (heap st' ! c) = url (heap st' ! a) @ str_nat n @ ''/''))" by blast
  qed
  have r: "root st' < length (heap st')" "all_items st' ''/outline/'' = Some (root st')"
    using v rt len by (simp_all add: valid_store_def)
  show ?thesis
    unfolding valid_store_def
    using fin m c r by blast
qed

lemma valid_store_created:
  assumes v: "valid_store st" and p: "all_items st p = Some pa"
  shows "valid_store (created ticks p t pa st)"
proof -
  let ?n = "length (children (heap st ! pa))"
  let ?u = "p @ str_nat ?n @ ''/''"
  let ?st = "created ticks p t pa st"
  from valid_store_item [OF v p] have pa: "pa < length (heap st)" and up: "url (heap st ! pa) = p"
    by simp_all
  have h: "heap ?st = (heap st)[pa := (heap st ! pa)\<lparr>children := children (heap st ! pa) @ [length (heap st)],
                                               last_modified := ticks (Suc (clock st))\<rparr>]
                   @ [\<lparr>url = ?u, item_text = t, children = [], last_modified = ticks (clock st)\<rparr>]"
    and m: "all_items ?st = (all_items st)(?u \<mapsto> length (heap st))"
    and r: "root ?st = root st"
    by (simp_all add: created_def Let_def)
  have len: "length (heap ?st) = Suc (length (heap st))" by (simp add: h)
  have urls: "\<And>a. a < length (heap st) \<Longrightarrow> url (heap ?st ! a) = url (heap st ! a)"
    using pa by (simp add: h nth_append nth_list_update)
  have unew: "url (heap ?st ! length (heap st)) = ?u" by (simp add: h nth_append)
  have ch_old: "\<And>a. a < length (heap st) \<Longrightarrow> a \<noteq> pa \<Longrightarrow> children (heap ?st ! a) = children (heap st ! a)"
    using pa by (simp add: h nth_append nth_list_update)
  have ch_pa: "children (heap ?st ! pa) = children (heap st ! pa) @ [length (heap st)]"
    using pa by (simp add: h nth_append nth_list_update)
  have ch_new: "children (heap ?st ! length (heap st)) = []" by (simp add: h nth_append)
  have 1: "root ?st < length (heap ?st)" using v by (simp add: r len valid_store_def)
  have 2: "all_items ?st ''/outline/'' = Some (root ?st)"
    using valid_store_root [OF v] child_url_not_root [of p ?n] by (simp add: m r)
  have 3: "finite (dom (all_items ?st))" using valid_store_finite [OF v] by (simp add: m)
  have 4: "a < length (heap ?st) \<and> url (heap ?st ! a) = k" if "all_items ?st k = Some a" for k a
  proof (cases "k = ?u")
    case True
    with that have "a = length (heap st)" by (simp add: m)
    with True show ?thesis by (simp add: len unew)
  next
    case False
    with that have "all_items st k = Some a" by (simp add: m)
    from valid_store_item [OF v this] show ?thesis by (simp add: len urls)
  qed
  have 5: "url (heap ?st ! a) \<noteq> [] \<and> last (url (heap ?st ! a)) = CHR ''/''"
    if "a < length (heap ?st)" for a
  proof (cases "a = length (heap st)")
    case True
    then show ?thesis by (simp add: unew)
  next
    case False
    with that have "a < length (heap st)" by (simp add: len)
    then show ?thesis using valid_store_slash [OF v] by (simp add: urls)
  qed
  have 6: "c < length (heap ?st) \<and> (\<exists>n. url (heap ?st ! c) = url (heap ?st ! a) @ str_nat n @ ''/'')"
    if a: "a < length (heap ?st)" and c: "c \<in> set (children (heap ?st ! a))" for a c
  proof (cases "a = length (heap st)")
    case True
    with c show ?thesis by (simp add: ch_new)
  next
    case False
    with a have a': "a < length (heap st)" by (simp add: len)
    show ?thesis
    proof (cases "c = length (heap st) \<and> a = pa")
      case True
      then show ?thesis using pa up by (auto simp: len unew urls)
    next
      case False
      have "c \<in> set (children (heap st ! a))"
      proof (cases "a = pa")
        case True
        with False c show ?thesis by (simp add: ch_pa)
      next
        case False
        with c a' show ?thesis by (simp add: ch_old)
      qed
      from valid_store_child [OF v a' this] show ?thesis using a' by (auto simp: len urls)
    qed
  qed
  show ?thesis
    unfolding valid_store_def using 1 2 3 4 5 6 by blast
qed

lemma stamped_later:
  assumes "stamped ticks st" "length (heap st') = length (heap st)" "clock st \<le> clock st'"
    and "\<And>a. a < length (heap st) \<Longrightarrow>
           last_modified (heap st' ! a) = last_modified (heap st ! a) \<or>
           (\<exists>i < clock st'. last_modified (heap st' ! a) = ticks i)"
  shows "stamped ticks st'"
  unfolding stamped_def
proof (intro allI impI)
  fix a assume "a < length (heap st')"
  then have a: "a < length (heap st)" using assms(2) by simp
  from assms(4) [OF a] show "\<exists>i<clock st'. last_modified (heap st' ! a) = ticks i"
  proof
    assume "last_modified (heap st' ! a) = last_modified (heap st ! a)"
    moreover from assms(1) a obtain i where "i < clock st" "last_modified (heap st ! a) = ticks i"
      by (auto simp: stamped_def)
    ultimately show ?thesis using assms(3) by (metis less_le_trans)
  qed
qed

lemma stamped_created:
  assumes s: "stamped ticks st" and pa: "pa < length (heap st)"
  shows "stamped ticks (created ticks p t pa st)"
  unfolding stamped_def
proof (intro allI impI)
  let ?st = "created ticks p t pa st"
  fix a assume a: "a < length (heap ?st)"
  have c: "clock ?st = Suc (Suc (clock st))" by (simp add: created_def Let_def)
  have "length (heap ?st) = Suc (length (heap st))" by (simp add: created_def Let_def)
  with a have "a < Suc (length (heap st))" by simp
  then consider "a = length (heap st)" | "a = pa" | "a < length (heap st)" "a \<noteq> pa"
    by (cases "a = pa") (auto simp: less_Suc_eq)
  then show "\<exists>i<clock ?st. last_modified (heap ?st ! a) = ticks i"
  proof cases
    case 1
    then have "last_modified (heap ?st ! a) = ticks (clock st)"
      by (simp add: created_def Let_def nth_append)
    then show ?thesis using c by (metis lessI less_SucI)
  next
    case 2
    then have "last_modified (heap ?st ! a) = ticks (Suc (clock st))"
      using pa by (simp add: created_def Let_def nth_append)
    then show ?thesis using c by (metis lessI)
  next
    case 3
    then have "last_modified (heap ?st ! a) = last_modified (heap st ! a)"
      using pa by (simp add: created_def Let_def nth_append)
    moreover from s 3 obtain i where "i < clock st" "last_modified (heap st ! a) = ticks i"
      by (auto simp: stamped_def)
    ultimately show ?thesis using c by (metis less_SucI)
  qed
qed

section \<open>Deletion\<close>

lemma item_effect_refl: "item_effect ticks c c' it it"
  by (simp add: item_effect_def)

lemma item_effect_trans:
  assumes "item_effect ticks c0 c1 x y" "item_effect ticks c1 c2 y z" "c0 \<le> c1" "c1 \<le> c2"
  shows "item_effect ticks c0 c2 x z"
proof (cases "z = y")
  case True
  show ?thesis
  proof (cases "y = x")
    case True
    with \<open>z = y\<close> show ?thesis by (simp add: item_effect_def)
  next
    case False
    with assms(1) obtain i where i: "c0 \<le> i" "i < c1" "last_modified y = ticks i"
      and same: "url y = url x" "item_text y = item_text x" "set (children y) \<subseteq> set (children x)"
      unfolding item_effect_def by blast
    from i assms(4) have "c0 \<le> i \<and> i < c2 \<and> last_modified y = ticks i" by simp
    then have "\<exists>i. c0 \<le> i \<and> i < c2 \<and> last_modified y = ticks i" by blast
    with same True show ?thesis by (simp add: item_effect_def)
  qed
next
  case False
  with assms(2) obtain i where i: "c1 \<le> i" "i < c2" "last_modified z = ticks i"
    and same: "url z = url y" "item_text z = item_text y" "set (children z) \<subseteq> set (children y)"
    unfolding item_effect_def by blast
  from i assms(3) have "c0 \<le> i \<and> i < c2 \<and> last_modified z = ticks i" by simp
  then have fresh: "\<exists>i. c0 \<le> i \<and> i < c2 \<and> last_modified z = ticks i" by blast
  have "url y = url x" "item_text y = item_text x" "set (children y) \<subseteq> set (children x)"
    using assms(1) unfolding item_effect_def by auto
  with same fresh show ?thesis unfolding item_effect_def by auto
qed

lemma item_effect_same:
  "item_effect ticks c c' it it' \<Longrightarrow>
     url it' = url it \<and> item_text it' = item_text it \<and>
     set (children it') \<subseteq> set (children it)"
  unfolding item_effect_def by auto

lemma item_effect_stamp:
  "item_effect ticks c c' it it' \<Longrightarrow>
     last_modified it' = last_modified it \<or>
     (\<exists>i. c \<le> i \<and> i < c' \<and> last_modified it' = ticks i)"
  unfolding item_effect_def by auto

lemma delete_effectI:
  assumes "length (heap st') = length (heap st)" "root st' = root st"
    "item_count st' = item_count st" "clock st \<le> clock st'"
    "set (updated_items st) \<subseteq> set (updated_items st')"
    "\<And>a. a < length (heap st) \<Longrightarrow>
        item_effect ticks (clock st) (clock st') (heap st ! a) (heap st' ! a)"
    "\<And>a. a < length (heap st) \<Longrightarrow> length (url (heap st ! a)) < n \<Longrightarrow> ex \<noteq> Some a
        \<Longrightarrow> heap st' ! a = heap st ! a"
    "\<And>k a. all_items st' k = Some a \<Longrightarrow> all_items st k = Some a"
    "\<And>k. length k < n \<Longrightarrow> all_items st' k = all_items st k"
  shows "delete_effect ticks n ex st st'"
  unfolding delete_effect_def using assms by blast

lemma delete_effect_shape:
  "delete_effect ticks n ex st st' \<Longrightarrow>
     length (heap st') = length (heap st) \<and> root st' = root st \<and>
     item_count st' = item_count st \<and> clock st \<le> clock st' \<and>
     set (updated_items st) \<subseteq> set (updated_items st')"
  unfolding delete_effect_def by blast

lemma delete_effect_item:
  "delete_effect ticks n ex st st' \<Longrightarrow> a < length (heap st) \<Longrightarrow>
     item_effect ticks (clock st) (clock st') (heap st ! a) (heap st' ! a)"
  unfolding delete_effect_def by blast

lemma delete_effect_url:
  "delete_effect ticks n ex st st' \<Longrightarrow> a < length (heap st) \<Longrightarrow>
     url (heap st' ! a) = url (heap st ! a)"
  using delete_effect_item [of ticks n ex st st' a] by (simp add: item_effect_same)

lemma delete_effect_frame:
  "delete_effect ticks n ex st st' \<Longrightarrow> a < length (heap st) \<Longrightarrow>
     length (url (heap st ! a)) < n \<Longrightarrow> ex \<noteq> Some a \<Longrightarrow> heap st' ! a = heap st ! a"
  unfolding delete_effect_def by blast

lemma delete_effect_keys:
  "delete_effect ticks n ex st st' \<Longrightarrow> all_items st' k = Some a \<Longrightarrow> all_items st k = Some a"
  unfolding delete_effect_def by blast

lemma delete_effect_kept:
  "delete_effect ticks n ex st st' \<Longrightarrow> length k < n \<Longrightarrow> all_items st' k = all_items st k"
  unfolding delete_effect_def by blast

lemma delete_effect_refl: "delete_effect ticks n ex st st"
  by (rule delete_effectI) (simp_all add: item_effect_refl)

lemma delete_effect_trans:
  assumes a: "delete_effect ticks n ex st s" and b: "delete_effect ticks n ex s s'"
  shows "delete_effect ticks n ex st s'"
proof (rule delete_effectI)
  note sa = delete_effect_shape [OF a] and sb = delete_effect_shape [OF b]
  show "length (heap s') = length (heap st)" "root s' = root st"
    "item_count s' = item_count st" "clock st \<le> clock s'"
    using sa sb by simp_all
  show "set (updated_items st) \<subseteq> set (updated_items s')"
    using sa sb by blast
  show "item_effect ticks (clock st) (clock s') (heap st ! x) (heap s' ! x)"
    if "x < length (heap st)" for x
  proof -
    from that sa have x': "x < length (heap s)" by simp
    have "clock st \<le> clock s" "clock s \<le> clock s'" using sa sb by simp_all
    with delete_effect_item [OF a that] delete_effect_item [OF b x']
    show ?thesis by (rule item_effect_trans)
  qed
  show "heap s' ! x = heap st ! x"
    if x: "x < length (heap st)" "length (url (heap st ! x)) < n" "ex \<noteq> Some x" for x
  proof -
    from x sa have x': "x < length (heap s)" by simp
    have 1: "heap s ! x = heap st ! x" using delete_effect_frame [OF a x] .
    then have "length (url (heap s ! x)) < n" using x(2) by simp
    from delete_effect_frame [OF b x' this x(3)] 1 show ?thesis by simp
  qed
  show "all_items st k = Some y" if "all_items s' k = Some y" for k y
    using delete_effect_keys [OF a delete_effect_keys [OF b that]] .
  show "all_items s' k = all_items st k" if "length k < n" for k
    using delete_effect_kept [OF a that] delete_effect_kept [OF b that] by simp
qed

lemma delete_effect_weaken:
  assumes a: "delete_effect ticks n ex st st'" and mn: "m \<le> n"
    and ex: "\<And>b. b < length (heap st) \<Longrightarrow> length (url (heap st ! b)) < m \<Longrightarrow> ex' \<noteq> Some b
                \<Longrightarrow> ex \<noteq> Some b"
  shows "delete_effect ticks m ex' st st'"
proof (rule delete_effectI)
  note sa = delete_effect_shape [OF a]
  show "length (heap st') = length (heap st)" "root st' = root st"
    "item_count st' = item_count st" "clock st \<le> clock st'"
    "set (updated_items st) \<subseteq> set (updated_items st')"
    using sa by simp_all
  show "item_effect ticks (clock st) (clock st') (heap st ! x) (heap st' ! x)"
    if "x < length (heap st)" for x
    using delete_effect_item [OF a that] .
  show "heap st' ! b = heap st ! b"
    if "b < length (heap st)" "length (url (heap st ! b)) < m" "ex' \<noteq> Some b" for b
  proof -
    from ex [OF that] have "ex \<noteq> Some b" .
    moreover from that(2) mn have "length (url (heap st ! b)) < n" by simp
    ultimately show ?thesis using delete_effect_frame [OF a that(1)] by simp
  qed
  show "all_items st k = Some y" if "all_items st' k = Some y" for k y
    using delete_effect_keys [OF a that] .
  show "all_items st' k = all_items st k" if "length k < m" for k
  proof -
    from that mn have "length k < n" by simp
    then show ?thesis by (rule delete_effect_kept [OF a])
  qed
qed

lemma for_each_total:
  assumes "I st"
    and "\<And>x s. x \<in> set xs \<Longrightarrow> I s \<Longrightarrow> \<exists>s'. body x s = Some (Inr s') \<and> I s'"
  shows "\<exists>st'. for_each body xs st = Some (Inr st') \<and> I st'"
  using assms
proof (induction xs arbitrary: st)
  case Nil
  then show ?case by simp
next
  case (Cons x xs)
  from Cons.prems(2) [of x st] Cons.prems(1)
  obtain s' where s': "body x st = Some (Inr s')" "I s'" by auto
  have "\<exists>st'. for_each body xs s' = Some (Inr st') \<and> I st'"
  proof (rule Cons.IH [OF s'(2)])
    fix y s assume "y \<in> set xs" "I s"
    then show "\<exists>s'. body y s = Some (Inr s') \<and> I s'" using Cons.prems(2) [of y s] by simp
  qed
  with s'(1) show ?case by simp
qed

lemma remove_child_all_items: "all_items (snd (remove_child ticks p c s)) = all_items s"
  by (simp add: remove_child_def time_time_def set_item_def Let_def)

lemma remove_child_valid:
  assumes v: "valid_store s" and p: "p < length (heap s)"
  shows "valid_store (snd (remove_child ticks p c s))"
proof (cases "c \<in> set (children (heap s ! p))")
  case True
  show ?thesis
  proof (rule valid_store_shrink [OF v])
    fix a assume "a < length (heap s)"
    then show "url (heap (snd (remove_child ticks p c s)) ! a) = url (heap s ! a) \<and>
       set (children (heap (snd (remove_child ticks p c s)) ! a)) \<subseteq> set (children (heap s ! a))"
      using True p by (cases "a = p") (auto simp: remove_child_in dest: set_remove1_subset [THEN subsetD])
  qed (simp_all add: remove_child_in [OF True p])
next
  case False
  then show ?thesis using v by (simp add: remove_child_out)
qed

lemma remove_child_effect:
  assumes p: "p < length (heap s)"
  shows "delete_effect ticks n (Some p) s (snd (remove_child ticks p c s))"
proof (cases "c \<in> set (children (heap s ! p))")
  case True
  note eq = remove_child_in [OF True p, of ticks]
  show ?thesis
  proof (rule delete_effectI)
    fix a assume a: "a < length (heap s)"
    show "item_effect ticks (clock s) (clock (snd (remove_child ticks p c s))) (heap s ! a)
       (heap (snd (remove_child ticks p c s)) ! a)"
    proof (cases "a = p")
      case True
      have "clock s \<le> clock s \<and> clock s < Suc (clock s) \<and> ticks (clock s) = ticks (clock s)"
        by simp
      then have "\<exists>i. clock s \<le> i \<and> i < Suc (clock s) \<and> ticks (clock s) = ticks i" by blast
      then show ?thesis using True p
        by (auto simp: eq item_effect_def dest: set_remove1_subset [THEN subsetD])
    next
      case False
      then show ?thesis using p by (simp add: eq item_effect_refl)
    qed
  next
    fix a assume "a < length (heap s)" "Some p \<noteq> Some a"
    then show "heap (snd (remove_child ticks p c s)) ! a = heap s ! a"
      by (simp add: eq)
  qed (simp_all add: eq)
next
  case False
  then show ?thesis by (simp add: remove_child_out delete_effect_refl)
qed

lemma unregister_valid:
  assumes v: "valid_store s" and k: "k \<noteq> ''/outline/''"
  shows "valid_store (mark_updated pp (s\<lparr>all_items := (all_items s)(k := None)\<rparr>))"
proof (rule valid_store_shrink [OF v])
  fix k' a assume "all_items (mark_updated pp (s\<lparr>all_items := (all_items s)(k := None)\<rparr>)) k' = Some a"
  then show "all_items s k' = Some a" by (simp add: mark_updated_def split: if_splits)
qed (use k in \<open>simp_all add: mark_updated_def\<close>)

lemma unregister_effect:
  assumes "n \<le> length k"
  shows "delete_effect ticks n ex s (mark_updated pp (s\<lparr>all_items := (all_items s)(k := None)\<rparr>))"
proof (rule delete_effectI)
  fix k' a assume "all_items (mark_updated pp (s\<lparr>all_items := (all_items s)(k := None)\<rparr>)) k' = Some a"
  then show "all_items s k' = Some a" by (simp add: mark_updated_def split: if_splits)
next
  fix k' :: string assume "length k' < n"
  with assms have "k' \<noteq> k" by auto
  then show "all_items (mark_updated pp (s\<lparr>all_items := (all_items s)(k := None)\<rparr>)) k' = all_items s k'"
    by (simp add: mark_updated_def)
qed (auto simp: mark_updated_def item_effect_refl)

lemma deleted_nothing:
  assumes "valid_store st" "k = ''/outline/'' \<or> all_items st k = None"
  shows "deleted ticks k st False st"
  unfolding deleted_def using assms by (auto simp: delete_effect_refl)

lemma delete_item_nothing:
  assumes "k = ''/outline/'' \<or> all_items st k = None"
  shows "delete_item ticks (Suc d) k st = Some (Inr (False, st))"
  using assms by (auto simp: delete_item.simps get_item_def)

lemma delete_item_total:
  assumes "valid_store st"
    and "\<And>k'. all_items st k' \<noteq> None \<Longrightarrow> length k' < length k + d"
  shows "\<exists>b st'. delete_item ticks (Suc d) k st = Some (Inr (b, st')) \<and> deleted ticks k st b st'"
  using assms
proof (induction d arbitrary: st k)
  case 0
  have n: "k = ''/outline/'' \<or> all_items st k = None" using "0.prems"(2) [of k] by auto
  show ?case using delete_item_nothing [OF n] deleted_nothing [OF "0.prems"(1) n] by blast
next
  case (Suc d)
  note v = Suc.prems(1)
  show ?case
  proof (cases "k = ''/outline/'' \<or> all_items st k = None")
    case True
    show ?thesis using delete_item_nothing [OF True] deleted_nothing [OF v True] by blast
  next
    case False
    then obtain a where a: "all_items st k = Some a" and kr: "k \<noteq> ''/outline/''" by auto
    from valid_store_item [OF v a]
    have al: "a < length (heap st)" and ua: "url (heap st ! a) = k" by simp_all
    from valid_store_slash [OF v al] ua have ks: "k \<noteq> []" "last k = CHR ''/''" by simp_all
    define body where "body =
      (\<lambda>child s. map_option (map_sum id snd) (delete_item ticks (Suc d) (url (item_at s child)) s))"
    define I where "I = (\<lambda>s. valid_store s \<and> delete_effect ticks (Suc (length k)) (Some a) st s)"
    have I0: "I st" by (simp add: I_def v delete_effect_refl)
    have step: "\<exists>s'. body c s = Some (Inr s') \<and> I s'"
      if c: "c \<in> set (children (heap st ! a))" and Is: "I s" for c s
    proof -
      from Is have vs: "valid_store s"
        and es: "delete_effect ticks (Suc (length k)) (Some a) st s" by (simp_all add: I_def)
      from valid_store_child [OF v al c] ua obtain n
        where cl: "c < length (heap st)" and uc: "url (heap st ! c) = k @ str_nat n @ ''/''"
        by auto
      define kc where "kc = k @ str_nat n @ ''/''"
      have ucs: "url (heap s ! c) = kc"
        using delete_effect_url [OF es cl] uc by (simp add: kc_def)
      have lkc: "Suc (length k) \<le> length kc" by (simp add: kc_def)
      have bnd: "length k' < length kc + d" if "all_items s k' \<noteq> None" for k'
      proof -
        from that obtain y where "all_items s k' = Some y" by auto
        from delete_effect_keys [OF es this] have "all_items st k' \<noteq> None" by simp
        from Suc.prems(2) [OF this] lkc show ?thesis by simp
      qed
      from Suc.IH [OF vs bnd] obtain b s'
        where r: "delete_item ticks (Suc d) kc s = Some (Inr (b, s'))"
          and dl: "deleted ticks kc s b s'" by blast
      have pp: "parent_path_of kc = k"
        unfolding kc_def using ks str_nat_no_slash by (rule parent_path_of_child)
      have ka: "all_items s k = Some a" using delete_effect_kept [OF es, of k] a by simp
      from dl have vs': "valid_store s'"
        and e1: "delete_effect ticks (length kc) (all_items s (parent_path_of kc)) s s'"
        unfolding deleted_def by blast+
      have e2: "delete_effect ticks (Suc (length k)) (Some a) s s'"
        by (rule delete_effect_weaken [OF e1 lkc]) (simp add: pp ka)
      have "I s'" unfolding I_def using vs' delete_effect_trans [OF es e2] by simp
      moreover have "body c s = Some (Inr s')" by (simp add: body_def item_at_def ucs r)
      ultimately show ?thesis by blast
    qed
    from for_each_total [of I st "children (heap st ! a)" body, OF I0 step]
    obtain st1 where l: "for_each body (children (heap st ! a)) st = Some (Inr st1)"
      and I1: "I st1" by blast
    from I1 have v1: "valid_store st1"
      and e1: "delete_effect ticks (Suc (length k)) (Some a) st st1" by (simp_all add: I_def)
    have k1: "all_items st1 k = Some a" using delete_effect_kept [OF e1, of k] a by simp
    define pp where "pp = parent_path_of k"
    define st2 where "st2 = (case get_item st1 pp of None \<Rightarrow> st1
                              | Some parent \<Rightarrow> snd (remove_child ticks parent a st1))"
    define st' where "st' = mark_updated pp (st2\<lparr>all_items := (all_items st2)(k := None)\<rparr>)"
    have k2: "all_items st2 k = Some a"
      by (simp add: st2_def k1 remove_child_all_items split: option.split)
    have res: "delete_item ticks (Suc (Suc d)) k st = Some (Inr (True, st'))"
    proof -
      have l': "for_each (\<lambda>child s. map_option (map_sum id snd)
                    (delete_item ticks (Suc d) (url (item_at s child)) s))
                  (children (item_at st a)) st = Some (Inr st1)"
        using l by (simp add: body_def item_at_def)
      show ?thesis
        using kr k2
        by (subst delete_item.simps(2))
           (simp add: get_item_def a l' Let_def st'_def st2_def pp_def)
    qed
    have v2: "valid_store st2" and e12: "delete_effect ticks (length k) (all_items st pp) st1 st2"
    proof -
      show "valid_store st2"
      proof (cases "all_items st1 pp")
        case None
        then show ?thesis using v1 by (simp add: st2_def get_item_def)
      next
        case (Some pa)
        from valid_store_item [OF v1 Some] have "pa < length (heap st1)" by simp
        from remove_child_valid [OF v1 this] Some show ?thesis by (simp add: st2_def get_item_def)
      qed
      show "delete_effect ticks (length k) (all_items st pp) st1 st2"
      proof (cases "all_items st1 pp")
        case None
        then show ?thesis by (simp add: st2_def get_item_def delete_effect_refl)
      next
        case (Some pa)
        from valid_store_item [OF v1 Some] have "pa < length (heap st1)" by simp
        from remove_child_effect [OF this]
        have "delete_effect ticks (length k) (Some pa) st1 (snd (remove_child ticks pa a st1))" .
        moreover have "all_items st pp = Some pa" using delete_effect_keys [OF e1 Some] .
        ultimately show ?thesis using Some by (simp add: st2_def get_item_def)
      qed
    qed
    have v': "valid_store st'" unfolding st'_def by (rule unregister_valid [OF v2 kr])
    have e2': "delete_effect ticks (length k) (all_items st pp) st2 st'"
      unfolding st'_def by (rule unregister_effect) simp
    have e01: "delete_effect ticks (length k) (all_items st pp) st st1"
    proof (rule delete_effect_weaken [OF e1])
      fix b assume "b < length (heap st)" "length (url (heap st ! b)) < length k"
      then show "Some a \<noteq> Some b" using ua by auto
    qed simp
    have e: "delete_effect ticks (length k) (all_items st pp) st st'"
      using delete_effect_trans [OF e01 delete_effect_trans [OF e12 e2']] .
    have gone: "all_items st' k = None" by (simp add: st'_def mark_updated_def)
    have marked: "pp \<in> set (updated_items st')" by (simp add: st'_def mark_updated_def)
    have par: "children (heap st' ! pa) = remove1 a' (children (heap st ! pa)) \<and>
           (\<exists>i. clock st \<le> i \<and> i < clock st' \<and> last_modified (heap st' ! pa) = ticks i)"
      if pa: "all_items st pp = Some pa" and a': "all_items st k = Some a'"
        and mem: "a' \<in> set (children (heap st ! pa))" for pa a'
    proof -
      from a a' have [simp]: "a' = a" by simp
      from valid_store_item [OF v pa] have pal: "pa < length (heap st)"
        and upa: "url (heap st ! pa) = pp" by simp_all
      from valid_store_child [OF v pal] mem ua upa obtain n where kn: "k = pp @ str_nat n @ ''/''"
        by auto
      then have lpp: "length pp < length k" by simp
      then have ne: "pa \<noteq> a" using ua upa by auto
      have h1: "heap st1 ! pa = heap st ! pa"
        by (rule delete_effect_frame [OF e1 pal]) (use lpp upa ne in auto)
      have p1: "all_items st1 pp = Some pa" using delete_effect_kept [OF e1, of pp] lpp pa by simp
      have pal1: "pa < length (heap st1)" using delete_effect_shape [OF e1] pal by simp
      have mem1: "a \<in> set (children (heap st1 ! pa))" using mem h1 by simp
      have "st2 = snd (remove_child ticks pa a st1)" by (simp add: st2_def get_item_def p1)
      then have st2: "st2 = st1\<lparr>heap := (heap st1)[pa := (heap st1 ! pa)\<lparr>children := remove1 a (children (heap st1 ! pa)),
                                                  last_modified := ticks (clock st1)\<rparr>],
               clock := Suc (clock st1)\<rparr>"
        by (simp add: remove_child_in [OF mem1 pal1])
      have "children (heap st' ! pa) = remove1 a (children (heap st ! pa))"
        using pal1 by (simp add: st'_def mark_updated_def st2 h1)
      moreover have "last_modified (heap st' ! pa) = ticks (clock st1)"
        using pal1 by (simp add: st'_def mark_updated_def st2)
      moreover have "clock st' = Suc (clock st1)" by (simp add: st'_def mark_updated_def st2)
      moreover have "clock st \<le> clock st1" using delete_effect_shape [OF e1] by simp
      ultimately have "children (heap st' ! pa) = remove1 a' (children (heap st ! pa)) \<and>
           (clock st \<le> clock st1 \<and> clock st1 < clock st' \<and> last_modified (heap st' ! pa) = ticks (clock st1))"
        by simp
      then show ?thesis by blast
    qed
    have "deleted ticks k st True st'"
      unfolding deleted_def pp_def [symmetric]
      using v' e kr a gone marked par by blast
    with res show ?thesis by blast
  qed
qed

section \<open>Depth of the recursion, and reachable states\<close>

lemma for_each_mono:
  assumes "\<And>x s r. x \<in> set xs \<Longrightarrow> body x s = Some r \<Longrightarrow> body' x s = Some r"
    and "for_each body xs st = Some r"
  shows "for_each body' xs st = Some r"
  using assms
proof (induction xs arbitrary: st)
  case Nil
  then show ?case by simp
next
  case (Cons x xs)
  from Cons.prems(2) obtain y where y: "body x st = Some y"
    by (cases "body x st") auto
  from Cons.prems(1) [OF _ y] have y': "body' x st = Some y" by simp
  show ?case
  proof (cases y)
    case (Inl e)
    with y Cons.prems(2) have "r = Inl e" by simp
    with y' Inl show ?thesis by simp
  next
    case (Inr s')
    with y Cons.prems(2) have "for_each body xs s' = Some r" by simp
    then have "for_each body' xs s' = Some r"
      by (rule Cons.IH [rotated]) (use Cons.prems(1) in auto)
    with y' Inr show ?thesis by simp
  qed
qed

lemma delete_item_deeper:
  "delete_item ticks d k st = Some r \<Longrightarrow> delete_item ticks (Suc d) k st = Some r"
proof (induction d arbitrary: k st r)
  case 0
  then show ?case by (simp add: delete_item.simps)
next
  case (Suc d)
  show ?case
  proof (cases "k = ''/outline/'' \<or> get_item st k = None")
    case True
    with Suc.prems show ?thesis by (auto simp: delete_item.simps(2) [of _ _ k])
  next
    case False
    then obtain a where a: "get_item st k = Some a" and kr: "k \<noteq> ''/outline/''" by auto
    let ?body = "\<lambda>d child s. map_option (map_sum id snd)
                    (delete_item ticks d (url (item_at s child)) s)"
    from Suc.prems obtain x where x: "for_each (?body d) (children (item_at st a)) st = Some x"
      using kr a by (subst (asm) delete_item.simps(2)) (auto split: option.splits)
    have "for_each (?body (Suc d)) (children (item_at st a)) st = Some x"
    proof (rule for_each_mono [OF _ x])
      fix c s r' assume "?body d c s = Some r'"
      then obtain z where "delete_item ticks d (url (item_at s c)) s = Some z" "map_sum id snd z = r'"
        by auto
      with Suc.IH [OF this(1)] show "?body (Suc d) c s = Some r'" by simp
    qed
    with x Suc.prems kr a show ?thesis
      by (subst delete_item.simps(2), subst (asm) delete_item.simps(2)) simp
  qed
qed

lemma delete_item_depth:
  "d \<le> d' \<Longrightarrow> delete_item ticks d k st = Some r \<Longrightarrow> delete_item ticks d' k st = Some r"
  by (induction d' rule: dec_induct) (auto intro: delete_item_deeper)

lemma finite_strings_bounded:
  assumes "finite (A :: string set)"
  shows "\<exists>M. \<forall>k \<in> A. length k < M"
proof -
  from assms have "finite (length ` A)" by (rule finite_imageI)
  then obtain M where "\<forall>n \<in> length ` A. n < M"
    using finite_nat_set_iff_bounded by blast
  then show ?thesis by auto
qed

lemma delete_item_returns:
  assumes v: "valid_store st"
  shows "\<exists>d0 b st'. deleted ticks k st b st' \<and>
           (\<forall>d \<ge> d0. delete_item ticks d k st = Some (Inr (b, st')))"
proof -
  from finite_strings_bounded [OF valid_store_finite [OF v]]
  obtain M where M: "\<forall>k' \<in> dom (all_items st). length k' < M" by blast
  have "length k' < length k + M" if "all_items st k' \<noteq> None" for k'
    using M that by (auto simp: dom_def trans_less_add2)
  from delete_item_total [OF v this, where ticks = ticks] obtain b st'
    where r: "delete_item ticks (Suc M) k st = Some (Inr (b, st'))"
      and dl: "deleted ticks k st b st'" by blast
  have "\<forall>d \<ge> Suc M. delete_item ticks d k st = Some (Inr (b, st'))"
    using delete_item_depth [OF _ r] by blast
  with dl show ?thesis by blast
qed

lemma delete_item_deleted:
  assumes v: "valid_store st" and r: "delete_item ticks d k st = Some r"
  shows "\<exists>b st'. r = Inr (b, st') \<and> deleted ticks k st b st'"
proof -
  from delete_item_returns [OF v, of ticks k] obtain d0 b st'
    where dl: "deleted ticks k st b st'"
      and all: "\<forall>d \<ge> d0. delete_item ticks d k st = Some (Inr (b, st'))" by blast
  from all have "delete_item ticks (max d d0) k st = Some (Inr (b, st'))" by simp
  moreover from delete_item_depth [OF _ r, of "max d d0"]
  have "delete_item ticks (max d d0) k st = Some r" by simp
  ultimately have "r = Inr (b, st')" by simp
  with dl show ?thesis by blast
qed

lemma stamped_effect:
  assumes s: "stamped ticks st" and e: "delete_effect ticks n ex st st'"
  shows "stamped ticks st'"
proof (rule stamped_later [OF s])
  from delete_effect_shape [OF e]
  show "length (heap st') = length (heap st)" "clock st \<le> clock st'" by simp_all
  fix a assume "a < length (heap st)"
  from item_effect_stamp [OF delete_effect_item [OF e this]]
  show "last_modified (heap st' ! a) = last_modified (heap st ! a) \<or>
         (\<exists>i<clock st'. last_modified (heap st' ! a) = ticks i)"
    by blast
qed

lemma update_item_valid:
  assumes v: "valid_store st"
  shows "valid_store (snd (update_item ticks k t st))"
proof (cases "get_item st k")
  case None
  then show ?thesis using v by (simp add: update_item_None)
next
  case (Some a)
  then have a: "a < length (heap st)" using valid_store_item [OF v, of k a] by (simp add: get_item_def)
  show ?thesis
  proof (rule valid_store_shrink [OF v])
    fix b assume "b < length (heap st)"
    then show "url (heap (snd (update_item ticks k t st)) ! b) = url (heap st ! b) \<and>
       set (children (heap (snd (update_item ticks k t st)) ! b)) \<subseteq> set (children (heap st ! b))"
      by (cases "b = a") (simp_all add: update_item_Some [OF Some a])
  qed (simp_all add: update_item_Some [OF Some a])
qed

lemma update_item_stamped:
  assumes v: "valid_store st" and s: "stamped ticks st"
  shows "stamped ticks (snd (update_item ticks k t st))"
proof (cases "get_item st k")
  case None
  then show ?thesis using s by (simp add: update_item_None)
next
  case (Some a)
  then have a: "a < length (heap st)" using valid_store_item [OF v, of k a] by (simp add: get_item_def)
  show ?thesis
  proof (rule stamped_later [OF s])
    fix b assume "b < length (heap st)"
    have "clock st < Suc (clock st) \<and> ticks (clock st) = ticks (clock st)" by simp
    then have "\<exists>i<Suc (clock st). ticks (clock st) = ticks i" by blast
    then show "last_modified (heap (snd (update_item ticks k t st)) ! b) = last_modified (heap st ! b) \<or>
         (\<exists>i<clock (snd (update_item ticks k t st)).
             last_modified (heap (snd (update_item ticks k t st)) ! b) = ticks i)"
      using a by (cases "b = a") (simp_all add: update_item_Some [OF Some a])
  qed (simp_all add: update_item_Some [OF Some a])
qed

lemma create_item_valid:
  assumes v: "valid_store st"
  shows "valid_store (snd (create_item ticks p t st))"
proof (cases "get_item st p")
  case None
  then show ?thesis using v by (simp add: create_item_None)
next
  case (Some pa)
  then have m: "all_items st p = Some pa" by (simp add: get_item_def)
  from valid_store_item [OF v m] have "pa < length (heap st)" by simp
  from create_item_Some [OF Some this] valid_store_created [OF v m] show ?thesis by simp
qed

lemma create_item_stamped:
  assumes v: "valid_store st" and s: "stamped ticks st"
  shows "stamped ticks (snd (create_item ticks p t st))"
proof (cases "get_item st p")
  case None
  then show ?thesis using s by (simp add: create_item_None)
next
  case (Some pa)
  then have m: "all_items st p = Some pa" by (simp add: get_item_def)
  from valid_store_item [OF v m] have pa: "pa < length (heap st)" by simp
  from create_item_Some [OF Some pa] stamped_created [OF s pa] show ?thesis by simp
qed

lemma get_updated_items_fields:
  "heap (snd (get_updated_items ticks since st)) = heap st"
  "all_items (snd (get_updated_items ticks since st)) = all_items st"
  "root (snd (get_updated_items ticks since st)) = root st"
  "item_count (snd (get_updated_items ticks since st)) = item_count st"
  "clock (snd (get_updated_items ticks since st)) = Suc (clock st)"
  by (simp_all add: get_updated_items_def cleanup_old_updates_def time_time_def Let_def)

lemma clear_updated_items_fields:
  "heap (clear_updated_items st) = heap st"
  "all_items (clear_updated_items st) = all_items st"
  "root (clear_updated_items st) = root st"
  "item_count (clear_updated_items st) = item_count st"
  "clock (clear_updated_items st) = clock st"
  by (simp_all add: clear_updated_items_def)

lemma reachable_valid_stamped:
  "reachable ticks st \<Longrightarrow> valid_store st \<and> stamped ticks st"
proof (induction rule: reachable.induct)
  case init
  show ?case by (simp add: valid_store_init stamped_init)
next
  case (create st p t r st')
  then have "st' = snd (create_item ticks p t st)" by simp
  with create.IH show ?case by (simp add: create_item_valid create_item_stamped)
next
  case (update st k t r st')
  then have "st' = snd (update_item ticks k t st)" by simp
  with update.IH show ?case by (simp add: update_item_valid update_item_stamped)
next
  case (delete st d k b st')
  from delete_item_deleted [OF _ delete.hyps(2)] delete.IH
  have dl: "deleted ticks k st b st'" by auto
  then have "valid_store st'"
    and "delete_effect ticks (length k) (all_items st (parent_path_of k)) st st'"
    unfolding deleted_def by blast+
  with delete.IH stamped_effect show ?case by blast
next
  case (poll st since ks st')
  then have st': "st' = snd (get_updated_items ticks since st)" by simp
  have "valid_store st'"
    by (rule valid_store_shrink [of st]) (use poll.IH in \<open>simp_all add: st' get_updated_items_fields\<close>)
  moreover have "stamped ticks st'"
    by (rule stamped_later [of ticks st]) (use poll.IH in \<open>simp_all add: st' get_updated_items_fields\<close>)
  ultimately show ?case by simp
next
  case (clear st)
  have "valid_store (clear_updated_items st)"
    by (rule valid_store_shrink [of st]) (use clear.IH in \<open>simp_all add: clear_updated_items_fields\<close>)
  moreover have "stamped ticks (clear_updated_items st)"
    by (rule stamped_later [of ticks st]) (use clear.IH in \<open>simp_all add: clear_updated_items_fields\<close>)
  ultimately show ?case by simp
qed

lemma run_reachable:
  "run ticks d rs st = Some st' \<Longrightarrow> reachable ticks st \<Longrightarrow> reachable ticks st'"
proof (induction rs arbitrary: st)
  case Nil
  then show ?case by simp
next
  case (Cons r rs)
  from Cons.prems(1) obtain s where s: "perform ticks d r st = Some s" "run ticks d rs s = Some st'"
    by (cases "perform ticks d r st") auto
  have "reachable ticks s"
  proof (cases r)
    case (Create p t)
    with s(1) have "create_item ticks p t st = (fst (create_item ticks p t st), s)" by auto
    with Cons.prems(2) show ?thesis by (rule reachable.create)
  next
    case (Update k t)
    with s(1) have "update_item ticks k t st = (fst (update_item ticks k t st), s)" by auto
    with Cons.prems(2) show ?thesis by (rule reachable.update)
  next
    case (Delete k)
    with s(1) obtain b where "delete_item ticks d k st = Some (Inr (b, s))"
      by (auto split: option.splits sum.splits)
    with Cons.prems(2) show ?thesis by (rule reachable.delete)
  next
    case (Poll since)
    with s(1) have "get_updated_items ticks since st = (fst (get_updated_items ticks since st), s)"
      by auto
    with Cons.prems(2) show ?thesis by (rule reachable.poll)
  next
    case Clear
    with s(1) Cons.prems(2) show ?thesis by (auto intro: reachable.clear)
  qed
  with Cons.IH s(2) show ?case by blast
qed

text \<open>Unfolding the operations on a concrete store.\<close>

lemmas eval_simps =
  init_model_def root_url_def create_item_def update_item_def get_item_def item_at_def
  new_OutlineItem_def add_child_def remove_child_def time_time_def set_item_def
  mark_updated_def Let_def delete_item.simps parent_path_of_def
  str_nat.simps digit_char_def get_updated_items_def cleanup_old_updates_def
  clear_updated_items_def to_dict_def sample_clock_def eval_nat_numeral


lemma mono_sample_clock: "mono sample_clock"
  by (simp add: mono_def sample_clock_def)

lemma reachable_stamp_before:
  assumes r: "reachable ticks st" and a: "a < length (heap st)"
  shows "\<exists>i < clock st. last_modified (item_at st a) = ticks i"
  using reachable_valid_stamped [OF r] a by (simp add: stamped_def item_at_def)

lemma set_fold_removeAll: "set (fold removeAll xs ys) = set ys - set xs"
  by (induction xs arbitrary: ys) auto


text \<open>What the sweep of \<open>get_updated_items\<close> keeps: an entry whose key is not registered stays.\<close>

lemma get_updated_items_sweeps:
  "set (updated_items (snd (get_updated_items ticks since st))) =
     {k \<in> set (updated_items st).
        \<not> (\<exists>item. get_item st k = Some item \<and>
                    last_modified (item_at st item) < ticks (clock st) - 3600)}"
  by (auto simp: get_updated_items_def cleanup_old_updates_def time_time_def get_item_def
      item_at_def Let_def set_fold_removeAll split: option.splits)

lemma in_tree_childless_root:
  assumes "children (item_at st (root st)) = []" "in_tree st a"
  shows "a = root st"
  using assms(2,1) by (induction rule: in_tree.induct) auto


section \<open>Urls without deletions\<close>

lemma children_registeredD:
  assumes "children_registered st" "all_items st k = Some a" "k \<noteq> ''/outline/''"
  obtains p pa i where "all_items st p = Some pa" "i < length (children (heap st ! pa))"
    "k = p @ str_nat i @ ''/''"
proof -
  from assms have "\<exists>p pa i. all_items st p = Some pa \<and> i < length (children (heap st ! pa)) \<and>
                  k = p @ str_nat i @ ''/''"
    unfolding children_registered_def by simp
  then show ?thesis using that by (elim exE conjE)
qed

lemma new_url_free:
  assumes v: "valid_store st" and c: "children_registered st" and p: "all_items st p = Some pa"
  shows "all_items st (p @ str_nat (length (children (heap st ! pa))) @ ''/'') = None"
proof (rule ccontr)
  let ?n = "length (children (heap st ! pa))"
  let ?k = "p @ str_nat ?n @ ''/''"
  assume "all_items st ?k \<noteq> None"
  then obtain a where a: "all_items st ?k = Some a" by auto
  have nr: "?k \<noteq> ''/outline/''" by (rule child_url_not_root)
  from children_registeredD [OF c a nr] obtain p' pa' i
    where p': "all_items st p' = Some pa'" and i: "i < length (children (heap st ! pa'))"
      and k: "?k = p' @ str_nat i @ ''/''" by blast
  from valid_store_item [OF v p] have pl: "pa < length (heap st)" "url (heap st ! pa) = p" by simp_all
  from valid_store_item [OF v p'] have pl': "pa' < length (heap st)" "url (heap st ! pa') = p'"
    by simp_all
  from valid_store_slash [OF v pl(1)] pl(2) have s: "p \<noteq> []" "last p = CHR ''/''" by simp_all
  from valid_store_slash [OF v pl'(1)] pl'(2) have s': "p' \<noteq> []" "last p' = CHR ''/''" by simp_all
  from child_url_unique [OF k s str_nat_no_slash s' str_nat_no_slash]
  have "p = p'" "str_nat ?n = str_nat i" by simp_all
  then have "pa = pa'" "?n = i" using p p' str_nat_inj by auto
  with i show False by simp
qed

lemma children_registered_init: "children_registered (init_model ticks)"
  by (simp add: children_registered_def init_model_def root_url_def)

lemma children_registered_same:
  assumes "children_registered st" "all_items st' = all_items st"
    "\<And>a. children (heap st' ! a) = children (heap st ! a)"
  shows "children_registered st'"
  using assms unfolding children_registered_def by simp

lemma children_registered_created:
  assumes v: "valid_store st" and c: "children_registered st" and p: "all_items st p = Some pa"
  shows "children_registered (created ticks p t pa st)"
  unfolding children_registered_def
proof (intro allI impI)
  let ?n = "length (children (heap st ! pa))"
  let ?u = "p @ str_nat ?n @ ''/''"
  let ?st = "created ticks p t pa st"
  from valid_store_item [OF v p] have pl: "pa < length (heap st)" by simp
  have m: "all_items ?st = (all_items st)(?u \<mapsto> length (heap st))"
    by (simp add: created_def Let_def)
  have free: "all_items st ?u = None" by (rule new_url_free [OF v c p])
  have keep: "all_items ?st q = Some qa" if "all_items st q = Some qa" for q qa
  proof -
    from that free have "q \<noteq> ?u" by auto
    with that show ?thesis by (simp add: m)
  qed
  have grow: "length (children (heap st ! qa)) \<le> length (children (heap ?st ! qa))"
    if "qa < length (heap st)" for qa
    using that pl by (cases "qa = pa") (simp_all add: created_def Let_def nth_append)
  have lpa: "length (children (heap ?st ! pa)) = Suc ?n"
    using pl by (simp add: created_def Let_def nth_append)
  fix k assume "all_items ?st k \<noteq> None \<and> k \<noteq> ''/outline/''"
  then have k: "all_items ?st k \<noteq> None" and kr: "k \<noteq> ''/outline/''" by simp_all
  show "\<exists>q qa i. all_items ?st q = Some qa \<and> i < length (children (heap ?st ! qa)) \<and>
                  k = q @ str_nat i @ ''/''"
  proof (cases "k = ?u")
    case True
    have "all_items ?st p = Some pa \<and> ?n < length (children (heap ?st ! pa)) \<and> k = p @ str_nat ?n @ ''/''"
      using keep [OF p] lpa True by simp
    then show ?thesis by blast
  next
    case False
    with k obtain a where "all_items st k = Some a" by (auto simp: m)
    from children_registeredD [OF c this kr] obtain q qa i
      where q: "all_items st q = Some qa" and i: "i < length (children (heap st ! qa))"
        and ke: "k = q @ str_nat i @ ''/''" by blast
    from valid_store_item [OF v q] have "qa < length (heap st)" by simp
    from grow [OF this] i have "i < length (children (heap ?st ! qa))" by simp
    with keep [OF q] ke
    have "all_items ?st q = Some qa \<and> i < length (children (heap ?st ! qa)) \<and> k = q @ str_nat i @ ''/''"
      by simp
    then show ?thesis by blast
  qed
qed

lemma update_item_children:
  "children (heap (snd (update_item ticks k t st)) ! a) = children (heap st ! a)"
proof (cases "get_item st k")
  case None
  then show ?thesis by (simp add: update_item_None)
next
  case (Some b)
  then show ?thesis
    by (cases "a = b"; cases "b < length (heap st)")
       (simp_all add: update_item_def time_time_def set_item_def item_at_def mark_updated_def Let_def
          list_update_beyond)
qed

lemma update_item_all_items: "all_items (snd (update_item ticks k t st)) = all_items st"
  by (cases "get_item st k")
     (simp_all add: update_item_def time_time_def set_item_def mark_updated_def Let_def)

lemma reachable_without_delete_registered:
  "reachable_without_delete ticks st \<Longrightarrow> reachable ticks st \<and> children_registered st"
proof (induction rule: reachable_without_delete.induct)
  case init
  show ?case by (simp add: reachable.init children_registered_init)
next
  case (create st p t r st')
  then have r: "reachable ticks st" and c: "children_registered st" by simp_all
  from r have v: "valid_store st" by (simp add: reachable_valid_stamped)
  have "children_registered st'"
  proof (cases "get_item st p")
    case None
    with create.hyps(2) c show ?thesis by (simp add: create_item_None)
  next
    case (Some pa)
    then have m: "all_items st p = Some pa" by (simp add: get_item_def)
    from valid_store_item [OF v m] have "pa < length (heap st)" by simp
    from create_item_Some [OF Some this, of ticks t] create.hyps(2)
    have "st' = created ticks p t pa st" by simp
    with children_registered_created [OF v c m] show ?thesis by simp
  qed
  with reachable.create [OF r create.hyps(2)] show ?case by simp
next
  case (update st k t r st')
  then have r: "reachable ticks st" and c: "children_registered st" by simp_all
  from update.hyps(2) have st': "st' = snd (update_item ticks k t st)" by simp
  have "children_registered st'"
    by (rule children_registered_same [OF c])
       (simp_all add: st' update_item_all_items update_item_children)
  with reachable.update [OF r update.hyps(2)] show ?case by simp
next
  case (poll st since ks st')
  then have r: "reachable ticks st" and c: "children_registered st" by simp_all
  from poll.hyps(2) have st': "st' = snd (get_updated_items ticks since st)" by simp
  have "children_registered st'"
    by (rule children_registered_same [OF c]) (simp_all add: st' get_updated_items_fields)
  with reachable.poll [OF r poll.hyps(2)] show ?case by simp
next
  case (clear st)
  then have r: "reachable ticks st" and c: "children_registered st" by simp_all
  have "children_registered (clear_updated_items st)"
    by (rule children_registered_same [OF c]) (simp_all add: clear_updated_items_fields)
  with reachable.clear [OF r] show ?case by simp
qed


section \<open>Stamps along a run\<close>

lemma perform_reachable:
  "reachable ticks st \<Longrightarrow> perform ticks d r st = Some st' \<Longrightarrow> reachable ticks st'"
  using run_reachable [of ticks d "[r]" st st'] by (simp split: option.splits)

lemma perform_stamps:
  assumes v: "valid_store st" and p: "perform ticks d r st = Some st'"
  shows "length (heap st) \<le> length (heap st') \<and> clock st \<le> clock st' \<and>
         (\<forall>a < length (heap st).
            heap st' ! a = heap st ! a \<or>
            (\<exists>i. clock st \<le> i \<and> i < clock st' \<and> last_modified (heap st' ! a) = ticks i))"
proof (cases r)
  case (Create pp t)
  show ?thesis
  proof (cases "get_item st pp")
    case None
    with p Create show ?thesis by (simp add: create_item_None)
  next
    case (Some pa)
    then have m: "all_items st pp = Some pa" by (simp add: get_item_def)
    from valid_store_item [OF v m] have pl: "pa < length (heap st)" by simp
    from p Create create_item_Some [OF Some pl, of ticks t]
    have st': "st' = created ticks pp t pa st" by simp
    have "heap st' ! a = heap st ! a \<or>
            (\<exists>i. clock st \<le> i \<and> i < clock st' \<and> last_modified (heap st' ! a) = ticks i)"
      if "a < length (heap st)" for a
    proof (cases "a = pa")
      case True
      have "clock st \<le> Suc (clock st) \<and> Suc (clock st) < clock st' \<and>
            last_modified (heap st' ! a) = ticks (Suc (clock st))"
        using pl True by (simp add: st' created_def Let_def nth_append)
      then show ?thesis by blast
    next
      case False
      with that pl show ?thesis by (simp add: st' created_def Let_def nth_append)
    qed
    then show ?thesis by (simp add: st' created_def Let_def)
  qed
next
  case (Update k t)
  show ?thesis
  proof (cases "get_item st k")
    case None
    with p Update show ?thesis by (simp add: update_item_None)
  next
    case (Some b)
    then have m: "all_items st k = Some b" by (simp add: get_item_def)
    from valid_store_item [OF v m] have bl: "b < length (heap st)" by simp
    note eq = update_item_Some [OF Some bl, of ticks t]
    from p Update have st': "st' = snd (update_item ticks k t st)" by simp
    have "heap st' ! a = heap st ! a \<or>
            (\<exists>i. clock st \<le> i \<and> i < clock st' \<and> last_modified (heap st' ! a) = ticks i)"
      if "a < length (heap st)" for a
    proof (cases "a = b")
      case True
      have "clock st \<le> clock st \<and> clock st < clock st' \<and>
            last_modified (heap st' ! a) = ticks (clock st)"
        using bl True by (simp add: st' eq)
      then show ?thesis by blast
    next
      case False
      then show ?thesis by (simp add: st' eq)
    qed
    then show ?thesis by (simp add: st' eq)
  qed
next
  case (Delete k)
  with p obtain b where "delete_item ticks d k st = Some (Inr (b, st'))"
    by (auto split: option.splits sum.splits)
  from delete_item_deleted [OF v this] have "deleted ticks k st b st'" by simp
  then have e: "delete_effect ticks (length k) (all_items st (parent_path_of k)) st st'"
    unfolding deleted_def by blast
  have "heap st' ! a = heap st ! a \<or>
            (\<exists>i. clock st \<le> i \<and> i < clock st' \<and> last_modified (heap st' ! a) = ticks i)"
    if "a < length (heap st)" for a
    using delete_effect_item [OF e that] unfolding item_effect_def by blast
  with delete_effect_shape [OF e] show ?thesis by simp
next
  case (Poll since)
  with p show ?thesis by (auto simp: get_updated_items_fields)
next
  case Clear
  with p show ?thesis by (auto simp: clear_updated_items_fields)
qed

lemma perform_stamp_order:
  assumes r: "reachable ticks st" and m: "mono ticks"
    and p: "perform ticks d rq st = Some st'" and a: "a < length (heap st)"
  shows "a < length (heap st') \<and> last_modified (heap st ! a) \<le> last_modified (heap st' ! a)"
proof -
  from r have v: "valid_store st" and s: "stamped ticks st"
    by (simp_all add: reachable_valid_stamped)
  note ps = perform_stamps [OF v p]
  from ps a have al: "a < length (heap st')" by simp
  from ps a have "heap st' ! a = heap st ! a \<or>
            (\<exists>i. clock st \<le> i \<and> i < clock st' \<and> last_modified (heap st' ! a) = ticks i)"
    by blast
  then have "last_modified (heap st ! a) \<le> last_modified (heap st' ! a)"
  proof
    assume "heap st' ! a = heap st ! a"
    then show ?thesis by simp
  next
    assume "\<exists>i. clock st \<le> i \<and> i < clock st' \<and> last_modified (heap st' ! a) = ticks i"
    then obtain i where i: "clock st \<le> i" "last_modified (heap st' ! a) = ticks i" by blast
    from s a obtain j where j: "j < clock st" "last_modified (heap st ! a) = ticks j"
      unfolding stamped_def by blast
    from i(1) j(1) have "j \<le> i" by simp
    with m have "ticks j \<le> ticks i" by (rule monoD)
    with i(2) j(2) show ?thesis by simp
  qed
  with al show ?thesis by simp
qed

lemma run_stamp_order:
  assumes m: "mono ticks"
  shows "reachable ticks st \<Longrightarrow> run ticks d rs st = Some st' \<Longrightarrow> a < length (heap st) \<Longrightarrow>
         a < length (heap st') \<and> last_modified (heap st ! a) \<le> last_modified (heap st' ! a)"
proof (induction rs arbitrary: st)
  case Nil
  then show ?case by simp
next
  case (Cons r rs)
  from Cons.prems(2) obtain s where s: "perform ticks d r st = Some s" "run ticks d rs s = Some st'"
    by (cases "perform ticks d r st") auto
  from perform_stamp_order [OF Cons.prems(1) m s(1) Cons.prems(3)]
  have 1: "a < length (heap s)" "last_modified (heap st ! a) \<le> last_modified (heap s ! a)"
    by simp_all
  from Cons.IH [OF perform_reachable [OF Cons.prems(1) s(1)] s(2) 1(1)]
  have "a < length (heap st')" "last_modified (heap s ! a) \<le> last_modified (heap st' ! a)"
    by simp_all
  with 1(2) show ?case by simp
qed


section \<open>The claims\<close>

text \<open>
  Claim C1. In every store state, when \<open>parent_path\<close> is not registered,
  \<open>create_item\<close> returns \<open>None\<close> (not found) and leaves the store as it was. When it
  is registered for the item \<open>parent\<close> (a reference into the store), \<open>create_item\<close>
  returns a freshly allocated item whose url is \<open>parent_path\<close>, then the number of
  children that \<open>parent\<close> had before the call, then a slash; the new item carries the
  given text and has no children, it is appended to the children of \<open>parent\<close>, it is
  registered under its url, and its url and \<open>parent_path\<close> are added to the dirty
  set.
\<close>

theorem create_item_appends_child:
  "(get_item st parent_path = None \<longrightarrow> create_item ticks parent_path t st = (None, st)) \<and>
   (\<forall>parent. get_item st parent_path = Some parent \<and> parent < length (heap st) \<longrightarrow>
      (\<exists>new st'. create_item ticks parent_path t st = (Some new, st') \<and>
         new = length (heap st) \<and>
         url (item_at st' new) =
           parent_path @ str_nat (length (children (item_at st parent))) @ ''/'' \<and>
         item_text (item_at st' new) = t \<and>
         children (item_at st' new) = [] \<and>
         children (item_at st' parent) = children (item_at st parent) @ [new] \<and>
         all_items st' = (all_items st)(url (item_at st' new) \<mapsto> new) \<and>
         set (updated_items st') =
           {url (item_at st' new), parent_path} \<union> set (updated_items st)))"
proof (intro conjI allI impI)
  assume "get_item st parent_path = None"
  then show "create_item ticks parent_path t st = (None, st)" by (rule create_item_None)
next
  fix parent
  assume "get_item st parent_path = Some parent \<and> parent < length (heap st)"
  then have g: "get_item st parent_path = Some parent" and p: "parent < length (heap st)"
    by simp_all
  let ?st' = "created ticks parent_path t parent st"
  have "create_item ticks parent_path t st = (Some (length (heap st)), ?st')"
    using g p by (rule create_item_Some)
  moreover have "url (item_at ?st' (length (heap st))) =
           parent_path @ str_nat (length (children (item_at st parent))) @ ''/''"
    "item_text (item_at ?st' (length (heap st))) = t"
    "children (item_at ?st' (length (heap st))) = []"
    by (simp_all add: created_def Let_def item_at_def nth_append)
  moreover have "children (item_at ?st' parent) = children (item_at st parent) @ [length (heap st)]"
    using p by (simp add: created_def Let_def item_at_def nth_append)
  moreover have "all_items ?st' = (all_items st)(url (item_at ?st' (length (heap st))) \<mapsto> length (heap st))"
    by (simp add: created_def Let_def item_at_def nth_append)
  moreover have "set (updated_items ?st') =
           {url (item_at ?st' (length (heap st))), parent_path} \<union> set (updated_items st)"
    by (auto simp: created_def Let_def item_at_def nth_append)
  ultimately show "\<exists>new st'. create_item ticks parent_path t st = (Some new, st') \<and>
         new = length (heap st) \<and>
         url (item_at st' new) =
           parent_path @ str_nat (length (children (item_at st parent))) @ ''/'' \<and>
         item_text (item_at st' new) = t \<and>
         children (item_at st' new) = [] \<and>
         children (item_at st' parent) = children (item_at st parent) @ [new] \<and>
         all_items st' = (all_items st)(url (item_at st' new) \<mapsto> new) \<and>
         set (updated_items st') =
           {url (item_at st' new), parent_path} \<union> set (updated_items st)"
    by blast
qed

theorem create_item_appends_child_witness:
  "get_item (init_model sample_clock) ''/outline/'' = Some 0 \<and>
   0 < length (heap (init_model sample_clock)) \<and>
   (\<exists>new st'. create_item sample_clock ''/outline/'' ''A'' (init_model sample_clock) = (Some new, st') \<and>
      url (item_at st' new) = ''/outline/0/'' \<and> item_text (item_at st' new) = ''A'' \<and>
      children (item_at st' 0) = [new])"
  using create_item_appends_child
    [where st = "init_model sample_clock" and parent_path = "''/outline/''"
       and ticks = sample_clock and t = "''A''"]
  by (simp add: init_model_def get_item_def root_url_def item_at_def str_nat.simps digit_char_def)
     blast

text \<open>
  Claim C3. In every reachable state \<open>delete_item\<close> returns, with the same result at
  every depth that is large enough and never with an exception. The result is \<open>False\<close>
  exactly when the key is the root key \<open>/outline/\<close> or is not registered, and then the
  store is the one before the call, whole.
\<close>

theorem delete_item_refuses:
  assumes "reachable ticks st"
  shows "\<exists>b st'.
           (\<exists>d0. \<forall>d \<ge> d0. delete_item ticks d key st = Some (Inr (b, st'))) \<and>
           (\<forall>d r. delete_item ticks d key st = Some r \<longrightarrow> r = Inr (b, st')) \<and>
           (\<not> b \<longleftrightarrow> key = ''/outline/'' \<or> get_item st key = None) \<and>
           (\<not> b \<longrightarrow> st' = st)"
proof -
  from assms have v: "valid_store st" by (simp add: reachable_valid_stamped)
  from delete_item_returns [OF v, of ticks key] obtain d0 b st'
    where dl: "deleted ticks key st b st'"
      and all: "\<forall>d \<ge> d0. delete_item ticks d key st = Some (Inr (b, st'))" by blast
  have uniq: "r = Inr (b, st')" if "delete_item ticks d key st = Some r" for d r
  proof -
    from all have "delete_item ticks (max d d0) key st = Some (Inr (b, st'))" by simp
    moreover from delete_item_depth [OF _ that, of "max d d0"]
    have "delete_item ticks (max d d0) key st = Some r" by simp
    ultimately show ?thesis by simp
  qed
  from dl have b: "b \<longleftrightarrow> key \<noteq> ''/outline/'' \<and> all_items st key \<noteq> None"
    and u: "\<not> b \<longrightarrow> st' = st"
    unfolding deleted_def by blast+
  from b have "\<not> b \<longleftrightarrow> key = ''/outline/'' \<or> get_item st key = None"
    by (simp add: get_item_def)
  note this u
  show ?thesis
  proof (intro exI conjI)
    show "\<forall>d \<ge> d0. delete_item ticks d key st = Some (Inr (b, st'))" by (rule all)
    show "\<forall>d r. delete_item ticks d key st = Some r \<longrightarrow> r = Inr (b, st')"
      using uniq by blast
    show "\<not> b \<longleftrightarrow> key = ''/outline/'' \<or> get_item st key = None" by fact
    show "\<not> b \<longrightarrow> st' = st" by fact
  qed
qed

theorem delete_item_refuses_witness:
  "reachable sample_clock (init_model sample_clock) \<and>
   (\<exists>d0. \<forall>d \<ge> d0. delete_item sample_clock d ''/outline/'' (init_model sample_clock)
                      = Some (Inr (False, init_model sample_clock)))"
proof -
  from delete_item_refuses [OF reachable.init, of sample_clock "''/outline/''"]
  obtain b st' d0 where
    1: "\<forall>d \<ge> d0. delete_item sample_clock d ''/outline/'' (init_model sample_clock)
                      = Some (Inr (b, st'))"
    and 2: "\<not> b \<longleftrightarrow> ''/outline/'' = ''/outline/'' \<or> get_item (init_model sample_clock) ''/outline/'' = None"
    and 3: "\<not> b \<longrightarrow> st' = init_model sample_clock"
    by (elim exE conjE) (rule that, assumption+)
  from 2 have "\<not> b" by simp
  with 3 1 have "\<forall>d \<ge> d0. delete_item sample_clock d ''/outline/'' (init_model sample_clock)
                      = Some (Inr (False, init_model sample_clock))" by simp
  then show ?thesis using reachable.init [of sample_clock] by (intro conjI exI)
qed



text \<open>
  Claim C5. \<open>get_updated_items\<close> returns exactly the keys of the dirty set that are
  registered for an item whose \<open>last_modified\<close> is strictly greater than \<open>since\<close>;
  a key that is not registered contributes nothing. In a reachable state, a second call
  with nothing in between returns the empty list when its \<open>since\<close> is a time \<open>t\<close>
  not earlier than any reading of the clock taken before the first call. With a
  monotone clock the time that the first call read is such a \<open>t\<close>.
\<close>

theorem get_updated_items_selects:
  "set (fst (get_updated_items ticks since st)) =
     {k \<in> set (updated_items st).
        \<exists>item. get_item st k = Some item \<and> since < last_modified (item_at st item)} \<and>
   (reachable ticks st \<and> (\<forall>i < clock st. ticks i \<le> t) \<longrightarrow>
      fst (get_updated_items ticks t (snd (get_updated_items ticks since st))) = []) \<and>
   (mono ticks \<longrightarrow> (\<forall>i < clock st. ticks i \<le> ticks (clock st)))"
proof (intro conjI)
  show "set (fst (get_updated_items ticks since st)) =
     {k \<in> set (updated_items st).
        \<exists>item. get_item st k = Some item \<and> since < last_modified (item_at st item)}"
    by (auto simp: get_updated_items_def time_time_def get_item_def item_at_def Let_def
        split: option.splits)
  show "mono ticks \<longrightarrow> (\<forall>i < clock st. ticks i \<le> ticks (clock st))"
    by (simp add: mono_def)
  show "reachable ticks st \<and> (\<forall>i < clock st. ticks i \<le> t) \<longrightarrow>
      fst (get_updated_items ticks t (snd (get_updated_items ticks since st))) = []"
  proof
    assume h: "reachable ticks st \<and> (\<forall>i < clock st. ticks i \<le> t)"
    then have r: "reachable ticks st" and m: "\<forall>i < clock st. ticks i \<le> t" by simp_all
    from r have v: "valid_store st" by (simp add: reachable_valid_stamped)
    let ?s1 = "snd (get_updated_items ticks since st)"
    have old: "\<not> t < last_modified (item_at ?s1 item)"
      if "get_item ?s1 k = Some item" for k item
    proof -
      from that have "all_items st k = Some item"
        by (simp add: get_item_def get_updated_items_fields)
      from valid_store_item [OF v this] have "item < length (heap st)" by simp
      from reachable_stamp_before [OF r this] obtain i
        where i: "i < clock st" "last_modified (item_at st item) = ticks i" by blast
      from m i(1) have "ticks i \<le> t" by simp
      with i(2) show ?thesis by (simp add: item_at_def get_updated_items_fields)
    qed
    have "set (fst (get_updated_items ticks t ?s1)) =
        {k \<in> set (updated_items ?s1).
          \<exists>item. get_item ?s1 k = Some item \<and> t < last_modified (item_at ?s1 item)}"
      by (auto simp: get_updated_items_def time_time_def get_item_def item_at_def Let_def
          split: option.splits)
    also have "\<dots> = {}" using old by blast
    finally show "fst (get_updated_items ticks t ?s1) = []" by simp
  qed
qed

theorem get_updated_items_selects_witness:
  "reachable sample_clock (snd (create_item sample_clock ''/outline/'' ''A'' (init_model sample_clock))) \<and>
   mono sample_clock \<and>
   set (fst (get_updated_items sample_clock 0
         (snd (create_item sample_clock ''/outline/'' ''A'' (init_model sample_clock))))) =
     {''/outline/'', ''/outline/0/''} \<and>
   fst (get_updated_items sample_clock
         (sample_clock (clock (snd (create_item sample_clock ''/outline/'' ''A'' (init_model sample_clock)))))
         (snd (get_updated_items sample_clock 0
           (snd (create_item sample_clock ''/outline/'' ''A'' (init_model sample_clock)))))) = []"
proof -
  let ?s = "snd (create_item sample_clock ''/outline/'' ''A'' (init_model sample_clock))"
  have r: "reachable sample_clock ?s"
    by (rule reachable.create [OF reachable.init]) (rule surjective_pairing)
  have e: "set (fst (get_updated_items sample_clock 0 ?s)) = {''/outline/'', ''/outline/0/''}"
    by (simp add: eval_simps)
  note th = get_updated_items_selects [of sample_clock 0 ?s "sample_clock (clock ?s)"]
  from th mono_sample_clock have "\<forall>i < clock ?s. sample_clock i \<le> sample_clock (clock ?s)"
    by blast
  with th r
  have "fst (get_updated_items sample_clock (sample_clock (clock ?s))
              (snd (get_updated_items sample_clock 0 ?s))) = []"
    by blast
  with r e mono_sample_clock show ?thesis by simp
qed

text \<open>
  Claim C10. Create two children under the root, delete the first, create a third
  child under the root: the third gets the url \<open>/outline/1/\<close> of the second, which
  still exists and is a different item; the registration of \<open>/outline/1/\<close> now refers
  to the third, and the children of the root are the second and the third, both with
  the url \<open>/outline/1/\<close>.
\<close>

theorem create_item_reuses_key:
  "\<exists>s. run sample_clock 2
          [Create ''/outline/'' ''A'', Create ''/outline/'' ''B'', Delete ''/outline/0/'']
          (init_model sample_clock) = Some s \<and>
     (\<exists>old new s'.
        get_item s ''/outline/1/'' = Some old \<and>
        create_item sample_clock ''/outline/'' ''C'' s = (Some new, s') \<and>
        url (item_at s' new) = ''/outline/1/'' \<and>
        new \<noteq> old \<and>
        url (item_at s' old) = ''/outline/1/'' \<and> item_text (item_at s' old) = ''B'' \<and>
        get_item s' ''/outline/1/'' = Some new \<and> item_text (item_at s' new) = ''C'' \<and>
        children (item_at s' (root s')) = [old, new] \<and>
        snd (snd (to_dict s' (root s'))) = [''/outline/1/'', ''/outline/1/''])"
  by (simp add: eval_simps)


text \<open>
  Claim C6, at an input where the code does not do what the claim says. After creating
  \<open>/outline/0/\<close> and deleting it, \<open>/outline/0/\<close> is still in the dirty set and is no
  longer registered. Every item of the store was last modified more than 3600 seconds
  before the next poll. The poll sweeps the entry of the root, whose item exists, and
  keeps the entry \<open>/outline/0/\<close>; so does the poll after it.
\<close>

theorem deleted_entry_never_swept:
  "\<exists>s. run sample_clock 2 [Create ''/outline/'' ''A'', Delete ''/outline/0/'']
          (init_model sample_clock) = Some s \<and>
     get_item s ''/outline/0/'' = None \<and>
     set (updated_items s) = {''/outline/'', ''/outline/0/''} \<and>
     length (heap s) = 2 \<and>
     last_modified (item_at s 0) < sample_clock (clock s) - 3600 \<and>
     last_modified (item_at s 1) < sample_clock (clock s) - 3600 \<and>
     fst (get_updated_items sample_clock 0 s) = [''/outline/''] \<and>
     updated_items (snd (get_updated_items sample_clock 0 s)) = [''/outline/0/''] \<and>
     updated_items (snd (get_updated_items sample_clock 0
        (snd (get_updated_items sample_clock 0 s)))) = [''/outline/0/'']"
  by (simp add: eval_simps)


text \<open>
  Claim C2, at an input where the code does not do what the claim says. The second child
  \<open>/outline/1/\<close> of the root gets a child \<open>/outline/1/0/\<close>, the first child of the root
  is deleted, and a new child of the root takes over the url \<open>/outline/1/\<close>. Deleting
  \<open>/outline/1/\<close> then returns \<open>True\<close> and unregisters \<open>/outline/1/\<close>, but
  \<open>/outline/1/0/\<close> is still found, and the children of the root still list
  \<open>/outline/1/\<close>.
\<close>

theorem delete_item_leaves_descendant:
  "\<exists>s. run sample_clock 2
          [Create ''/outline/'' ''A'', Create ''/outline/'' ''B'', Create ''/outline/1/'' ''B0'',
           Delete ''/outline/0/'', Create ''/outline/'' ''C'']
          (init_model sample_clock) = Some s \<and>
     get_item s ''/outline/1/'' \<noteq> None \<and> get_item s ''/outline/1/0/'' \<noteq> None \<and>
     (\<exists>s'. delete_item sample_clock 2 ''/outline/1/'' s = Some (Inr (True, s')) \<and>
        get_item s' ''/outline/1/'' = None \<and>
        get_item s' ''/outline/1/0/'' \<noteq> None \<and>
        snd (snd (to_dict s' (root s'))) = [''/outline/1/''])"
  by (simp add: eval_simps)


text \<open>
  Claim C7, at two inputs where the code does not do what the claim says. After two
  children of the root are created, the first is deleted and a third is created, the
  second child (the item at address 2) is still reached from the root and is registered
  under no url. And when the same happens one level down, under \<open>/outline/0/\<close>, and
  \<open>/outline/0/\<close> is then deleted, the item at address 4 is still registered, under
  \<open>/outline/0/1/0/\<close>, while the root reaches no item but itself.
\<close>

theorem orphans_after_delete:
  "(\<exists>s. run sample_clock 2
          [Create ''/outline/'' ''A'', Create ''/outline/'' ''B'', Delete ''/outline/0/'',
           Create ''/outline/'' ''C'']
          (init_model sample_clock) = Some s \<and>
       in_tree s 2 \<and> (\<forall>k. get_item s k \<noteq> Some 2)) \<and>
   (\<exists>s. run sample_clock 2
          [Create ''/outline/'' ''A'', Create ''/outline/0/'' ''X'', Create ''/outline/0/'' ''B'',
           Create ''/outline/0/1/'' ''B0'', Delete ''/outline/0/0/'', Create ''/outline/0/'' ''C'',
           Delete ''/outline/0/'']
          (init_model sample_clock) = Some s \<and>
       get_item s ''/outline/0/1/0/'' = Some 4 \<and> \<not> in_tree s 4)"
proof
  have "\<exists>s. run sample_clock 2
          [Create ''/outline/'' ''A'', Create ''/outline/'' ''B'', Delete ''/outline/0/'',
           Create ''/outline/'' ''C'']
          (init_model sample_clock) = Some s \<and>
       2 \<in> set (children (item_at s (root s))) \<and> (\<forall>k. get_item s k \<noteq> Some 2)"
    by (simp add: eval_simps)
  then show "\<exists>s. run sample_clock 2
          [Create ''/outline/'' ''A'', Create ''/outline/'' ''B'', Delete ''/outline/0/'',
           Create ''/outline/'' ''C'']
          (init_model sample_clock) = Some s \<and>
       in_tree s 2 \<and> (\<forall>k. get_item s k \<noteq> Some 2)"
    using in_tree.child [OF in_tree.root] by blast
  have "\<exists>s. run sample_clock 2
          [Create ''/outline/'' ''A'', Create ''/outline/0/'' ''X'', Create ''/outline/0/'' ''B'',
           Create ''/outline/0/1/'' ''B0'', Delete ''/outline/0/0/'', Create ''/outline/0/'' ''C'',
           Delete ''/outline/0/'']
          (init_model sample_clock) = Some s \<and>
       get_item s ''/outline/0/1/0/'' = Some 4 \<and>
       children (item_at s (root s)) = [] \<and> root s = 0"
    by (simp add: eval_simps)
  then obtain s where s: "run sample_clock 2
          [Create ''/outline/'' ''A'', Create ''/outline/0/'' ''X'', Create ''/outline/0/'' ''B'',
           Create ''/outline/0/1/'' ''B0'', Delete ''/outline/0/0/'', Create ''/outline/0/'' ''C'',
           Delete ''/outline/0/'']
          (init_model sample_clock) = Some s"
      "get_item s ''/outline/0/1/0/'' = Some 4"
      "children (item_at s (root s)) = []" "root s = 0"
    by (elim exE conjE)
  have "\<not> in_tree s 4"
  proof
    assume "in_tree s 4"
    from in_tree_childless_root [OF s(3) this] s(4) show False by simp
  qed
  with s(1,2) show "\<exists>s. run sample_clock 2
          [Create ''/outline/'' ''A'', Create ''/outline/0/'' ''X'', Create ''/outline/0/'' ''B'',
           Create ''/outline/0/1/'' ''B0'', Delete ''/outline/0/0/'', Create ''/outline/0/'' ''C'',
           Delete ''/outline/0/'']
          (init_model sample_clock) = Some s \<and>
       get_item s ''/outline/0/1/0/'' = Some 4 \<and> \<not> in_tree s 4"
    by (intro exI conjI)
qed

text \<open>
  Claim C8. In every state reached from the initial one without \<open>delete_item\<close>, the
  url that \<open>create_item\<close> gives the new item is not registered before the call (and
  is registered for the new item after it): the derivation of child urls never collides.
\<close>

theorem create_item_key_is_new:
  assumes "reachable_without_delete ticks st"
  shows "\<forall>parent_path t new st'.
           create_item ticks parent_path t st = (Some new, st') \<longrightarrow>
           get_item st (url (item_at st' new)) = None \<and>
           get_item st' (url (item_at st' new)) = Some new"
proof (intro allI impI)
  fix parent_path t new st'
  assume cr: "create_item ticks parent_path t st = (Some new, st')"
  from reachable_without_delete_registered [OF assms]
  have r: "reachable ticks st" and c: "children_registered st" by simp_all
  from r have v: "valid_store st" by (simp add: reachable_valid_stamped)
  from cr obtain pa where g: "get_item st parent_path = Some pa"
    by (cases "get_item st parent_path") (simp_all add: create_item_None)
  then have m: "all_items st parent_path = Some pa" by (simp add: get_item_def)
  from valid_store_item [OF v m] have pl: "pa < length (heap st)" by simp
  from create_item_Some [OF g pl, of ticks t] cr
  have new: "new = length (heap st)" and st': "st' = created ticks parent_path t pa st" by simp_all
  have u: "url (item_at st' new) = parent_path @ str_nat (length (children (heap st ! pa))) @ ''/''"
    by (simp add: new st' created_def Let_def item_at_def nth_append)
  from new_url_free [OF v c m] have "get_item st (url (item_at st' new)) = None"
    by (simp add: u get_item_def)
  moreover have "get_item st' (url (item_at st' new)) = Some new"
    by (simp add: u get_item_def) (simp add: st' new created_def Let_def)
  ultimately show "get_item st (url (item_at st' new)) = None \<and>
           get_item st' (url (item_at st' new)) = Some new" by simp
qed

theorem create_item_key_is_new_witness:
  "reachable_without_delete sample_clock
     (snd (create_item sample_clock ''/outline/'' ''A'' (init_model sample_clock))) \<and>
   (\<exists>new st'. create_item sample_clock ''/outline/'' ''B''
        (snd (create_item sample_clock ''/outline/'' ''A'' (init_model sample_clock))) = (Some new, st') \<and>
      url (item_at st' new) = ''/outline/1/'' \<and>
      get_item (snd (create_item sample_clock ''/outline/'' ''A'' (init_model sample_clock)))
        ''/outline/1/'' = None)"
proof -
  let ?s = "snd (create_item sample_clock ''/outline/'' ''A'' (init_model sample_clock))"
  have r: "reachable_without_delete sample_clock ?s"
    by (rule reachable_without_delete.create [OF reachable_without_delete.init])
       (rule surjective_pairing)
  obtain new st' where cr: "create_item sample_clock ''/outline/'' ''B'' ?s = (Some new, st')"
    and u: "url (item_at st' new) = ''/outline/1/''"
    by (simp add: eval_simps)
  from create_item_key_is_new [OF r, THEN spec, THEN spec, THEN spec, THEN spec, THEN mp, OF cr] u
  have "get_item ?s ''/outline/1/'' = None" by simp
  with r cr u show ?thesis by (intro conjI exI)
qed

text \<open>
  Claim C9. In every reachable state, with a monotone clock: along every list of
  requests run from that state, the \<open>last_modified\<close> of every item never decreases.
  An item that a request has changed in any way carries a reading of the clock taken
  during that request. In particular \<open>update_item\<close> stamps the item it updates,
  \<open>create_item\<close> stamps the new item and then the parent it was added to, and a
  \<open>delete_item\<close> that removes an item from the children of its registered parent
  stamps that parent.
\<close>

theorem last_modified_monotone:
  assumes "reachable ticks st" and "mono ticks"
  shows "(\<forall>d rs st' a. run ticks d rs st = Some st' \<and> a < length (heap st) \<longrightarrow>
            a < length (heap st') \<and>
            last_modified (item_at st a) \<le> last_modified (item_at st' a)) \<and>
         (\<forall>d r st' a. perform ticks d r st = Some st' \<and> a < length (heap st) \<and>
                       item_at st' a \<noteq> item_at st a \<longrightarrow>
            (\<exists>i. clock st \<le> i \<and> i < clock st' \<and> last_modified (item_at st' a) = ticks i)) \<and>
         (\<forall>k t item st'. update_item ticks k t st = (Some item, st') \<longrightarrow>
            last_modified (item_at st' item) = ticks (clock st) \<and> clock st' = Suc (clock st)) \<and>
         (\<forall>p t new st' parent.
            create_item ticks p t st = (Some new, st') \<and> get_item st p = Some parent \<longrightarrow>
            last_modified (item_at st' new) = ticks (clock st) \<and>
            last_modified (item_at st' parent) = ticks (Suc (clock st)) \<and>
            clock st' = Suc (Suc (clock st))) \<and>
         (\<forall>d k st' parent item.
            delete_item ticks d k st = Some (Inr (True, st')) \<and>
            get_item st (parent_path_of k) = Some parent \<and> get_item st k = Some item \<and>
            item \<in> set (children (item_at st parent)) \<longrightarrow>
            children (item_at st' parent) = remove1 item (children (item_at st parent)) \<and>
            (\<exists>i. clock st \<le> i \<and> i < clock st' \<and>
                 last_modified (item_at st' parent) = ticks i))"
proof (intro conjI allI impI)
  from assms(1) have v: "valid_store st" by (simp add: reachable_valid_stamped)
  {
    fix d rs st' a
    assume "run ticks d rs st = Some st' \<and> a < length (heap st)"
    then have "a < length (heap st') \<and> last_modified (heap st ! a) \<le> last_modified (heap st' ! a)"
      using run_stamp_order [OF assms(2) assms(1)] by blast
    then show "a < length (heap st')"
      and "last_modified (item_at st a) \<le> last_modified (item_at st' a)"
      by (simp_all add: item_at_def)
  }
  {
    fix d r st' a
    assume h: "perform ticks d r st = Some st' \<and> a < length (heap st) \<and>
               item_at st' a \<noteq> item_at st a"
    then have "perform ticks d r st = Some st'" "a < length (heap st)"
      "heap st' ! a \<noteq> heap st ! a" by (simp_all add: item_at_def)
    with perform_stamps [OF v this(1)]
    show "\<exists>i. clock st \<le> i \<and> i < clock st' \<and> last_modified (item_at st' a) = ticks i"
      unfolding item_at_def by blast
  }
  {
    fix k t item st'
    assume u: "update_item ticks k t st = (Some item, st')"
    then obtain b where g: "get_item st k = Some b"
      by (cases "get_item st k") (simp_all add: update_item_None)
    then have "all_items st k = Some b" by (simp add: get_item_def)
    from valid_store_item [OF v this] have bl: "b < length (heap st)" by simp
    from update_item_Some [OF g bl, of ticks t] u bl
    show "last_modified (item_at st' item) = ticks (clock st)" and "clock st' = Suc (clock st)"
      by (auto simp: item_at_def)
  }
  {
    fix p t new st' parent
    assume "create_item ticks p t st = (Some new, st') \<and> get_item st p = Some parent"
    then have c: "create_item ticks p t st = (Some new, st')" and g: "get_item st p = Some parent"
      by simp_all
    from g have "all_items st p = Some parent" by (simp add: get_item_def)
    from valid_store_item [OF v this] have pl: "parent < length (heap st)" by simp
    from create_item_Some [OF g pl, of ticks t] c
    have "new = length (heap st)" "st' = created ticks p t parent st" by simp_all
    with pl show "last_modified (item_at st' new) = ticks (clock st)"
      and "last_modified (item_at st' parent) = ticks (Suc (clock st))"
      and "clock st' = Suc (Suc (clock st))"
      by (simp_all add: created_def Let_def item_at_def nth_append)
  }
  {
    fix d k st' parent item
    assume h: "delete_item ticks d k st = Some (Inr (True, st')) \<and>
            get_item st (parent_path_of k) = Some parent \<and> get_item st k = Some item \<and>
            item \<in> set (children (item_at st parent))"
    then have dl: "delete_item ticks d k st = Some (Inr (True, st'))" by simp
    from delete_item_deleted [OF v dl] have "deleted ticks k st True st'" by auto
    then have "\<forall>pa a. all_items st (parent_path_of k) = Some pa \<and> all_items st k = Some a \<and>
                a \<in> set (children (heap st ! pa)) \<longrightarrow>
           children (heap st' ! pa) = remove1 a (children (heap st ! pa)) \<and>
           (\<exists>i. clock st \<le> i \<and> i < clock st' \<and> last_modified (heap st' ! pa) = ticks i)"
      unfolding deleted_def by blast
    with h show "children (item_at st' parent) = remove1 item (children (item_at st parent))"
      and "\<exists>i. clock st \<le> i \<and> i < clock st' \<and> last_modified (item_at st' parent) = ticks i"
      by (simp_all add: get_item_def item_at_def)
  }
qed

theorem last_modified_monotone_witness:
  "reachable sample_clock (init_model sample_clock) \<and> mono sample_clock \<and>
   (\<exists>st'. run sample_clock 1 [Create ''/outline/'' ''A'', Delete ''/outline/0/'']
            (init_model sample_clock) = Some st' \<and>
      last_modified (item_at (init_model sample_clock) 0) \<le> last_modified (item_at st' 0))"
proof -
  obtain st' where r: "run sample_clock 1 [Create ''/outline/'' ''A'', Delete ''/outline/0/'']
            (init_model sample_clock) = Some st'"
    by (simp add: eval_simps)
  have l: "0 < length (heap (init_model sample_clock))" by (simp add: init_model_def)
  from last_modified_monotone [OF reachable.init mono_sample_clock, THEN conjunct1,
      THEN spec, THEN spec, THEN spec, THEN spec, THEN mp, OF conjI, OF r l]
  have "last_modified (item_at (init_model sample_clock) 0) \<le> last_modified (item_at st' 0)"
    by simp
  with r show ?thesis
    using reachable.init [of sample_clock] mono_sample_clock by (intro conjI exI)
qed

end
